theory Spec2Isabelle
  imports Complex_Main "HOL-Library.Word" "HOL-Library.AList"
begin

section \<open>The PowerDNS exporter: data model\<close>

text \<open>
  The Go program keeps every statistic and every metric value in a \<open>float64\<close>. The
  model uses \<open>real\<close> for them: the statistics are decoded from JSON numbers, so they are
  finite, and the only arithmetic the exporter does on them is one division by
  \<open>1000000\<close> and the conversion to \<open>uint64\<close>. Rounding of \<open>float64\<close> is not modelled.

  A Go \<open>map\<close> is modelled by an association list with at most one pair per key, written to
  with \<open>AList.update\<close> and read with \<open>map_of\<close>. Go leaves the order of a \<open>range\<close> over
  a map open; the order of the list stands for the order of one run. The statements
  about a cycle hold for every order of the instruments, of the children of a counter
  vector and of the entries of a label map (see \<open>exporter_ok\<close>), and the histogram is
  the same for every order of the walk over the bucket map
  (\<open>makeRecursorRTimeHistogram_any_order\<close>).
\<close>

type_synonym float64 = real
type_synonym uint64 = "64 word"

text \<open>
  Go's conversion \<open>uint64(x)\<close> of a \<open>float64\<close>: the fraction is discarded. For \<open>x\<close>
  outside of \<open>[0, 2^64)\<close> Go leaves the result to the implementation; the definition
  wraps there, and every statement below about a converted value says which range it
  covers.
\<close>

definition uint64 :: "float64 \<Rightarrow> uint64" where
  "uint64 x = word_of_int (if 0 \<le> x then \<lfloor>x\<rfloor> else \<lceil>x\<rceil>)"

text \<open>Reading a Go map of counters: a missing key reads as the zero value.\<close>

definition index0 :: "('k \<times> uint64) list \<Rightarrow> 'k \<Rightarrow> uint64" where
  "index0 m k = (case map_of m k of None \<Rightarrow> 0 | Some v \<Rightarrow> v)"

text \<open>\<open>strings.HasSuffix\<close>.\<close>

definition HasSuffix :: "string \<Rightarrow> string \<Rightarrow> bool" where
  "HasSuffix s suffix =
     (length suffix \<le> length s \<and> drop (length s - length suffix) s = suffix)"

datatype error =
    TransportError
  | StatusError string
  | DecodeError
  | KeyNotFound string

datatype panic = NilDereference

text \<open>
  The two definition structs. Both have fields \<open>id\<close>, \<open>name\<close> and \<open>desc\<close>; the fields
  of \<open>gaugeDefinition\<close> carry the prefix \<open>g_\<close> here and those of
  \<open>counterVecDefinition\<close> the prefix \<open>c_\<close>.
\<close>

record gaugeDefinition =
  g_id :: int
  g_name :: string
  g_desc :: string
  g_key :: string

record counterVecDefinition =
  c_id :: int
  c_name :: string
  c_desc :: string
  c_label :: string
  c_labelMap :: "(string \<times> string) list"

record StatsEntry =
  Name :: string
  Kind :: string
  Value :: float64

type_synonym statsMap = "(string \<times> float64) list"

subsection \<open>The instruments of the metrics library\<close>

text \<open>
  The instruments come from the Prometheus client library. The model keeps of each one
  what the exporter uses: its options, its value, and for a counter vector the children
  created so far, one per label value.
\<close>

record Opts =
  Namespace :: string
  Subsystem :: string
  opt_Name :: string
  Help :: string

record Gauge =
  gauge_opts :: Opts
  gauge_value :: float64

record Counter =
  counter_opts :: Opts
  counter_value :: float64

record CounterVec =
  vec_opts :: Opts
  vec_labelNames :: "string list"
  vec_children :: "(string \<times> float64) list"

record Histogram =
  h_fqName :: string
  h_help :: string
  h_count :: uint64
  h_sum :: float64
  h_buckets :: "(float64 \<times> uint64) list"

datatype Metric =
    GaugeMetric Gauge
  | CounterMetric Counter
  | CounterVecChild Opts "string list" string float64
  | HistogramMetric Histogram

definition Gauge_Set :: "float64 \<Rightarrow> Gauge \<Rightarrow> Gauge" where
  "Gauge_Set v g = g\<lparr>gauge_value := v\<rparr>"

definition Counter_Inc :: "Counter \<Rightarrow> Counter" where
  "Counter_Inc c = c\<lparr>counter_value := counter_value c + 1\<rparr>"

definition CounterVec_Reset :: "CounterVec \<Rightarrow> CounterVec" where
  "CounterVec_Reset m = m\<lparr>vec_children := []\<rparr>"

text \<open>\<open>m.WithLabelValues(label).Set(value)\<close>: the child is created when it is not there.\<close>

definition CounterVec_SetLabel :: "string \<Rightarrow> float64 \<Rightarrow> CounterVec \<Rightarrow> CounterVec" where
  "CounterVec_SetLabel lv v m = m\<lparr>vec_children := AList.update lv v (vec_children m)\<rparr>"

definition CounterVec_Collect :: "CounterVec \<Rightarrow> Metric list" where
  "CounterVec_Collect m =
     map (\<lambda>(lv, v). CounterVecChild (vec_opts m) (vec_labelNames m) lv v) (vec_children m)"

subsection \<open>The registry tables\<close>

text \<open>
  The tables are those of the metrics file that defines \<open>makeRecursorRTimeHistogram\<close>,
  the one the exporter's \<open>collectMetrics\<close> is written against.
\<close>

definition namespace :: string where
  "namespace = ''powerdns''"

definition rTimeBucketMap :: "(string \<times> float64) list" where
  "rTimeBucketMap =
     [(''answers0-1'', 0.001),
      (''answers1-10'', 0.01),
      (''answers10-100'', 0.1),
      (''answers100-1000'', 1),
      (''answers-slow'', 0)]"

definition rTimeLabelMap :: "(string \<times> string) list" where
  "rTimeLabelMap =
     [(''answers0-1'', ''0-1ms''),
      (''answers1-10'', ''1-10ms''),
      (''answers10-100'', ''10-100ms''),
      (''answers100-1000'', ''100-1000ms''),
      (''answers-slow'', ''>1000ms'')]"

definition rCodeLabelMap :: "(string \<times> string) list" where
  "rCodeLabelMap =
     [(''servfail-answers'', ''servfail''),
      (''nxdomain-answers'', ''nxdomain''),
      (''noerror-answers'', ''noerror'')]"

definition exceptionsLabelMap :: "(string \<times> string) list" where
  "exceptionsLabelMap =
     [(''resource-limits'', ''resource-limit''),
      (''over-capacity-drops'', ''over-capacity-drop''),
      (''unreachables'', ''ns-unreachable''),
      (''outgoing-timeouts'', ''outgoing-timeout'')]"

definition gaugeDef :: "int \<Rightarrow> string \<Rightarrow> string \<Rightarrow> string \<Rightarrow> gaugeDefinition" where
  "gaugeDef i n d k = \<lparr>g_id = i, g_name = n, g_desc = d, g_key = k\<rparr>"

definition counterVecDef ::
  "int \<Rightarrow> string \<Rightarrow> string \<Rightarrow> string \<Rightarrow> (string \<times> string) list \<Rightarrow> counterVecDefinition" where
  "counterVecDef i n d l m = \<lparr>c_id = i, c_name = n, c_desc = d, c_label = l, c_labelMap = m\<rparr>"

definition recursorGaugeDefs :: "gaugeDefinition list" where
  "recursorGaugeDefs =
     [gaugeDef 1 ''latency_average_seconds''
        ''Exponential moving average of question-to-answer latency.'' ''qa-latency'',
      gaugeDef 2 ''concurrent_queries'' ''Number of concurrent queries.'' ''concurrent-queries'',
      gaugeDef 3 ''cache_size'' ''Number of entries in the cache.'' ''cache-entries'']"

definition recursorCounterVecDefs :: "counterVecDefinition list" where
  "recursorCounterVecDefs =
     [counterVecDef 1 ''incoming_queries_total''
        ''Total number of incoming queries by network.'' ''net''
        [(''questions'', ''udp''), (''tcp-questions'', ''tcp'')],
      counterVecDef 2 ''outgoing_queries_total''
        ''Total number of outgoing queries by network.'' ''net''
        [(''all-outqueries'', ''udp''), (''tcp-outqueries'', ''tcp'')],
      counterVecDef 3 ''cache_lookups_total''
        ''Total number of cache lookups by result.'' ''result''
        [(''cache-hits'', ''hit''), (''cache-misses'', ''miss'')],
      counterVecDef 4 ''answers_rcodes_total''
        ''Total number of answers by response code.'' ''rcode'' rCodeLabelMap,
      counterVecDef 5 ''answers_rtime_total''
        ''Total number of answers grouped by response time slots.'' ''timeslot'' rTimeLabelMap,
      counterVecDef 6 ''exceptions_total''
        ''Total number of exceptions by error.'' ''error'' exceptionsLabelMap]"

definition authoritativeGaugeDefs :: "gaugeDefinition list" where
  "authoritativeGaugeDefs =
     [gaugeDef 1 ''latency_average_seconds''
        ''Exponential moving average of question-to-answer latency.'' ''latency'',
      gaugeDef 2 ''packet_cache_size'' ''Number of entries in the packet cache.''
        ''packetcache-size'',
      gaugeDef 3 ''signature_cache_size'' ''Number of entries in the signature cache.''
        ''signature-cache-size'',
      gaugeDef 4 ''key_cache_size'' ''Number of entries in the key cache.'' ''key-cache-size'',
      gaugeDef 5 ''metadata_cache_size'' ''Number of entries in the metadata cache.''
        ''meta-cache-size'',
      gaugeDef 6 ''qsize'' ''Number of packets waiting for database attention.'' ''qsize-q'']"

definition authoritativeCounterVecDefs :: "counterVecDefinition list" where
  "authoritativeCounterVecDefs =
     [counterVecDef 1 ''queries_total'' ''Total number of queries by network.'' ''net''
        [(''tcp-queries'', ''tcp''), (''udp-queries'', ''udp'')],
      counterVecDef 2 ''answers_total'' ''Total number of answers by network.'' ''net''
        [(''tcp-answers'', ''tcp''), (''udp-answers'', ''udp'')],
      counterVecDef 3 ''recursive_queries_total''
        ''Total number of recursive queries by status.'' ''status''
        [(''rd-queries'', ''requested''), (''recursing-questions'', ''processed''),
         (''recursing-answers'', ''answered''), (''recursion-unanswered'', ''unanswered'')],
      counterVecDef 4 ''update_queries_total''
        ''Total number of DNS update queries by status.'' ''status''
        [(''dnsupdate-answers'', ''answered''), (''dnsupdate-changes'', ''applied''),
         (''dnsupdate-queries'', ''requested''), (''dnsupdate-refused'', ''refused'')],
      counterVecDef 5 ''packet_cache_lookups_total''
        ''Total number of packet-cache lookups by result.'' ''result''
        [(''packetcache-hit'', ''hit''), (''packetcache-miss'', ''miss'')],
      counterVecDef 6 ''query_cache_lookups_total''
        ''Total number of query-cache lookups by result.'' ''result''
        [(''query-cache-hit'', ''hit''), (''query-cache-miss'', ''miss'')],
      counterVecDef 7 ''exceptions_total'' ''Total number of exceptions by error.'' ''error''
        [(''servfail-packets'', ''servfail''), (''timedout-questions'', ''timeout''),
         (''udp-recvbuf-errors'', ''recvbuf-error''), (''udp-sndbuf-errors'', ''sndbuf-error'')]]"

definition dnsdistGaugeDefs :: "gaugeDefinition list" where
  "dnsdistGaugeDefs = []"

definition dnsdistCounterVecDefs :: "counterVecDefinition list" where
  "dnsdistCounterVecDefs = []"

section \<open>The response time histogram\<close>

text \<open>
  The first loop of \<open>makeRecursorRTimeHistogram\<close>, over the entries of
  \<open>rTimeBucketMap\<close>: a key that the snapshot lacks ends the function with an error;
  otherwise the value is converted, stored under its bound unless the bound is \<open>0\<close>,
  and added to \<open>count\<close>.
\<close>

fun rTimeLoop ::
  "(string \<times> float64) list \<Rightarrow> statsMap \<Rightarrow> (float64 \<times> uint64) list \<times> uint64
     \<Rightarrow> error + ((float64 \<times> uint64) list \<times> uint64)" where
  "rTimeLoop [] statsMap acc = Inr acc"
| "rTimeLoop ((k, v) # rest) statsMap (buckets, count) =
     (case map_of statsMap k of
        None \<Rightarrow> Inl (KeyNotFound k)
      | Some val \<Rightarrow>
          rTimeLoop rest statsMap
            (if v \<noteq> 0 then AList.update v (uint64 val) buckets else buckets,
             count + uint64 val))"

text \<open>The second loop, over the sorted bounds: linear buckets become cumulative ones.\<close>

fun cumulate ::
  "float64 list \<Rightarrow> uint64 \<times> (float64 \<times> uint64) list \<Rightarrow> uint64 \<times> (float64 \<times> uint64) list" where
  "cumulate [] acc = acc"
| "cumulate (k # ks) (cumsum, buckets) =
     (let cumsum' = cumsum + index0 buckets k
      in cumulate ks (cumsum', AList.update k cumsum' buckets))"

text \<open>
  \<open>prometheus.NewConstHistogram\<close> fails only on a descriptor that is not valid, or when
  the number of label values differs from the number of variable labels of the
  descriptor. The descriptor here has a valid name and a help text, and both numbers
  are zero, so the histogram is returned with the count, the sum \<open>0\<close> and the buckets
  it was given.
\<close>

definition makeRecursorRTimeHistogram :: "statsMap \<Rightarrow> error + Histogram" where
  "makeRecursorRTimeHistogram statsMap =
     (case rTimeLoop rTimeBucketMap statsMap ([], 0) of
        Inl err \<Rightarrow> Inl err
      | Inr (buckets, count) \<Rightarrow>
          (let keys = sort (map fst buckets);
               (cumsum, buckets') = cumulate keys (0, buckets)
           in Inr \<lparr>h_fqName = namespace @ ''_recursor_response_time_seconds'',
                   h_help = ''Histogram of PowerDNS recursor response times in seconds.'',
                   h_count = count, h_sum = 0, h_buckets = buckets'\<rparr>))"

text \<open>
  What a reader of the histogram sees: the bounds in ascending order and the count stored
  under each.
\<close>

definition bucketBounds :: "Histogram \<Rightarrow> float64 list" where
  "bucketBounds h = sort (map fst (h_buckets h))"

definition bucketCounts :: "Histogram \<Rightarrow> uint64 list" where
  "bucketCounts h = map (index0 (h_buckets h)) (bucketBounds h)"

section \<open>The exporter\<close>

record Exporter =
  HostURL :: string
  ServerType :: string
  ApiKey :: string
  up :: Gauge
  totalScrapes :: Counter
  jsonParseFailures :: Counter
  gaugeMetrics :: "(int \<times> Gauge) list"
  counterVecMetrics :: "(int \<times> CounterVec) list"
  gaugeDefs :: "gaugeDefinition list"
  counterVecDefs :: "counterVecDefinition list"

definition newCounterVecMetric :: "string \<Rightarrow> string \<Rightarrow> string \<Rightarrow> string list \<Rightarrow> CounterVec" where
  "newCounterVecMetric serverType metricName docString labelNames =
     \<lparr>vec_opts = \<lparr>Namespace = namespace, Subsystem = serverType,
                   opt_Name = metricName, Help = docString\<rparr>,
      vec_labelNames = labelNames, vec_children = []\<rparr>"

definition newGaugeMetric :: "string \<Rightarrow> string \<Rightarrow> string \<Rightarrow> Gauge" where
  "newGaugeMetric serverType metricName docString =
     \<lparr>gauge_opts = \<lparr>Namespace = namespace, Subsystem = serverType,
                     opt_Name = metricName, Help = docString\<rparr>,
      gauge_value = 0\<rparr>"

text \<open>The \<open>switch\<close> of \<open>NewExporter\<close>: both slices stay \<open>nil\<close> when no case matches.\<close>

definition selectDefs :: "string \<Rightarrow> gaugeDefinition list \<times> counterVecDefinition list" where
  "selectDefs serverType =
     (if serverType = ''recursor'' then (recursorGaugeDefs, recursorCounterVecDefs)
      else if serverType = ''authoritative''
        then (authoritativeGaugeDefs, authoritativeCounterVecDefs)
      else if serverType = ''dnsdist'' then (dnsdistGaugeDefs, dnsdistCounterVecDefs)
      else ([], []))"

definition NewExporter :: "string \<Rightarrow> string \<Rightarrow> string \<Rightarrow> Exporter" where
  "NewExporter apiKey serverType hostURL =
     (let (gDefs, cDefs) = selectDefs serverType;
          gMetrics = fold (\<lambda>def m. AList.update (g_id def)
                        (newGaugeMetric serverType (g_name def) (g_desc def)) m) gDefs [];
          cMetrics = fold (\<lambda>def m. AList.update (c_id def)
                        (newCounterVecMetric serverType (c_name def) (c_desc def) [c_label def]) m)
                        cDefs []
      in \<lparr>HostURL = hostURL, ServerType = serverType, ApiKey = apiKey,
          up = \<lparr>gauge_opts = \<lparr>Namespace = namespace, Subsystem = serverType,
                   opt_Name = ''up'', Help = ''Was the last scrape of PowerDNS successful.''\<rparr>,
                gauge_value = 0\<rparr>,
          totalScrapes = \<lparr>counter_opts = \<lparr>Namespace = namespace, Subsystem = serverType,
                   opt_Name = ''exporter_total_scrapes'',
                   Help = ''Current total PowerDNS scrapes.''\<rparr>,
                counter_value = 0\<rparr>,
          jsonParseFailures = \<lparr>counter_opts = \<lparr>Namespace = namespace, Subsystem = serverType,
                   opt_Name = ''exporter_json_parse_failures'',
                   Help = ''Number of errors while parsing PowerDNS JSON stats.''\<rparr>,
                counter_value = 0\<rparr>,
          gaugeMetrics = gMetrics, counterVecMetrics = cMetrics,
          gaugeDefs = gDefs, counterVecDefs = cDefs\<rparr>)"

text \<open>
  \<open>scrape\<close> gets the outcome of \<open>getJSON\<close> as its second argument. It returns what the
  channel \<open>jsonStats\<close> delivers: \<open>Some data\<close> after a send, \<open>None\<close> when the channel is
  closed with nothing sent.
\<close>

definition scrape :: "Exporter \<Rightarrow> error + StatsEntry list \<Rightarrow> Exporter \<times> StatsEntry list option" where
  "scrape e response =
     (let e1 = e\<lparr>totalScrapes := Counter_Inc (totalScrapes e)\<rparr>
      in case response of
           Inl err \<Rightarrow>
             (e1\<lparr>up := Gauge_Set 0 (up e1),
                 jsonParseFailures := Counter_Inc (jsonParseFailures e1)\<rparr>, None)
         | Inr data \<Rightarrow> (e1\<lparr>up := Gauge_Set 1 (up e1)\<rparr>, Some data))"

definition resetMetrics :: "Exporter \<Rightarrow> Exporter" where
  "resetMetrics e =
     e\<lparr>counterVecMetrics := map (\<lambda>(i, m). (i, CounterVec_Reset m)) (counterVecMetrics e)\<rparr>"

text \<open>
  A \<open>for ... range\<close> loop over a slice, or over the entries of a map, whose body can
  panic: the panic ends the loop and whatever called it.
\<close>

fun forRange :: "('a \<Rightarrow> 's \<Rightarrow> panic + 's) \<Rightarrow> 'a list \<Rightarrow> 's \<Rightarrow> panic + 's" where
  "forRange body [] s = Inr s"
| "forRange body (x # xs) s =
     (case body x s of Inl p \<Rightarrow> Inl p | Inr s' \<Rightarrow> forRange body xs s')"

text \<open>
  The body of the first loop of \<open>setMetrics\<close>. \<open>e.gaugeMetrics[def.id]\<close> is \<open>nil\<close> for
  an id with no instrument, and the call of \<open>Set\<close> on it panics.
\<close>

definition setGauge :: "statsMap \<Rightarrow> gaugeDefinition \<Rightarrow> Exporter \<Rightarrow> panic + Exporter" where
  "setGauge statsMap def e =
     (case map_of statsMap (g_key def) of
        Some val \<Rightarrow>
          (let val' = (if HasSuffix (g_key def) ''latency'' then val / 1000000 else val)
           in case map_of (gaugeMetrics e) (g_id def) of
                None \<Rightarrow> Inl NilDereference
              | Some g \<Rightarrow>
                  Inr (e\<lparr>gaugeMetrics :=
                            AList.update (g_id def) (Gauge_Set val' g) (gaugeMetrics e)\<rparr>))
      | None \<Rightarrow> Inr (e\<lparr>jsonParseFailures := Counter_Inc (jsonParseFailures e)\<rparr>))"

text \<open>
  The body of the inner loop over \<open>def.labelMap\<close>. \<open>e.counterVecMetrics[def.id]\<close> is
  \<open>nil\<close> for an id with no instrument, and \<open>WithLabelValues\<close> on it panics.
\<close>

definition setLabel :: "statsMap \<Rightarrow> int \<Rightarrow> string \<times> string \<Rightarrow> Exporter \<Rightarrow> panic + Exporter" where
  "setLabel statsMap i entry e =
     (case entry of (key, label) \<Rightarrow>
        (case map_of statsMap key of
           Some val \<Rightarrow>
             (case map_of (counterVecMetrics e) i of
                None \<Rightarrow> Inl NilDereference
              | Some m \<Rightarrow>
                  Inr (e\<lparr>counterVecMetrics :=
                            AList.update i (CounterVec_SetLabel label val m) (counterVecMetrics e)\<rparr>))
         | None \<Rightarrow> Inr (e\<lparr>jsonParseFailures := Counter_Inc (jsonParseFailures e)\<rparr>)))"

definition setCounterVec :: "statsMap \<Rightarrow> counterVecDefinition \<Rightarrow> Exporter \<Rightarrow> panic + Exporter" where
  "setCounterVec statsMap def e = forRange (setLabel statsMap (c_id def)) (c_labelMap def) e"

text \<open>The snapshot: one write per entry, in the order of the decoded array.\<close>

definition makeStatsMap :: "StatsEntry list \<Rightarrow> statsMap" where
  "makeStatsMap stats = fold (\<lambda>s m. AList.update (Name s) (Value s) m) stats []"

text \<open>
  \<open>setMetrics\<close> gets what the channel delivered; a receive from the closed channel
  yields the \<open>nil\<close> slice.
\<close>

definition setMetrics :: "Exporter \<Rightarrow> StatsEntry list option \<Rightarrow> panic + (statsMap \<times> Exporter)" where
  "setMetrics e jsonStats =
     (let stats = (case jsonStats of None \<Rightarrow> [] | Some data \<Rightarrow> data);
          statsMap = makeStatsMap stats
      in if length statsMap = 0 then Inr (statsMap, e)
         else (case forRange (setGauge statsMap) (gaugeDefs e) e of
                 Inl p \<Rightarrow> Inl p
               | Inr e' \<Rightarrow>
                   (case forRange (setCounterVec statsMap) (counterVecDefs e') e' of
                      Inl p \<Rightarrow> Inl p
                    | Inr e'' \<Rightarrow> Inr (statsMap, e''))))"

definition collectMetrics :: "Exporter \<Rightarrow> statsMap \<Rightarrow> Metric list" where
  "collectMetrics e statsMap =
     concat (map (\<lambda>(i, m). CounterVec_Collect m) (counterVecMetrics e))
     @ map (\<lambda>(i, m). GaugeMetric m) (gaugeMetrics e)
     @ (if ServerType e = ''recursor''
        then (case makeRecursorRTimeHistogram statsMap of
                Inl err \<Rightarrow> []
              | Inr h \<Rightarrow> [HistogramMetric h])
        else [])"

text \<open>
  One collection cycle. The goroutine running \<open>scrape\<close> writes \<open>up\<close>, \<open>totalScrapes\<close> and
  \<open>jsonParseFailures\<close> only, and all its writes come before the receive in \<open>setMetrics\<close>
  returns; \<open>resetMetrics\<close> writes the counter vectors only. So one cycle taken alone is
  the sequence below. The result is the exporter after the cycle and the metrics sent
  on \<open>ch\<close>, in the order sent.
\<close>

definition Exporter_Collect :: "Exporter \<Rightarrow> error + StatsEntry list \<Rightarrow> panic + (Exporter \<times> Metric list)" where
  "Exporter_Collect e response =
     (let (e1, jsonStats) = scrape e response;
          e2 = resetMetrics e1
      in case setMetrics e2 jsonStats of
           Inl p \<Rightarrow> Inl p
         | Inr (statsMap, e3) \<Rightarrow>
             Inr (e3, [GaugeMetric (up e3), CounterMetric (totalScrapes e3),
                       CounterMetric (jsonParseFailures e3)]
                      @ collectMetrics e3 statsMap))"

section \<open>Notions used in the statements\<close>

text \<open>
  An exporter is well formed when its definitions are the ones \<open>NewExporter\<close> selects
  for its server type and each of them has its instrument. A label map is a Go map,
  and the loop of \<open>setMetrics\<close> meets its entries in an order that Go leaves open: so
  the entries of each label map may stand in any order. The instruments and the
  children of a counter vector may stand in any order as well. \<open>NewExporter\<close> returns
  a well formed exporter and a collection cycle keeps it so (\<open>exporter_ok_NewExporter\<close>
  and \<open>exporter_ok_Collect\<close> below); the fields are private to the package, so no other
  exporter arises.
\<close>

definition sameEntries :: "counterVecDefinition \<Rightarrow> counterVecDefinition \<Rightarrow> bool" where
  "sameEntries d d' =
     (c_id d' = c_id d \<and> c_name d' = c_name d \<and> c_desc d' = c_desc d
      \<and> c_label d' = c_label d
      \<and> set (c_labelMap d') = set (c_labelMap d) \<and> distinct (c_labelMap d'))"

definition gaugesPresent :: "gaugeDefinition list \<Rightarrow> Exporter \<Rightarrow> bool" where
  "gaugesPresent defs e = list_all (\<lambda>d. map_of (gaugeMetrics e) (g_id d) \<noteq> None) defs"

definition counterVecsPresent :: "counterVecDefinition list \<Rightarrow> Exporter \<Rightarrow> bool" where
  "counterVecsPresent defs e =
     list_all (\<lambda>d. map_of (counterVecMetrics e) (c_id d) \<noteq> None) defs"

definition exporter_ok :: "Exporter \<Rightarrow> bool" where
  "exporter_ok e =
     (gaugeDefs e = fst (selectDefs (ServerType e))
      \<and> list_all2 sameEntries (snd (selectDefs (ServerType e))) (counterVecDefs e)
      \<and> gaugesPresent (gaugeDefs e) e \<and> counterVecsPresent (counterVecDefs e) e)"

text \<open>
  What a cycle never changes of an exporter: its configuration, its definitions, and
  which ids have an instrument.
\<close>

definition sameShape :: "Exporter \<Rightarrow> Exporter \<Rightarrow> bool" where
  "sameShape e e' =
     (HostURL e' = HostURL e \<and> ServerType e' = ServerType e \<and> ApiKey e' = ApiKey e
      \<and> gaugeDefs e' = gaugeDefs e \<and> counterVecDefs e' = counterVecDefs e
      \<and> map fst (gaugeMetrics e') = map fst (gaugeMetrics e)
      \<and> map fst (counterVecMetrics e') = map fst (counterVecMetrics e))"

text \<open>The raw keys that the bound registry refers to, one occurrence per reference.\<close>

definition registryKeys :: "Exporter \<Rightarrow> string list" where
  "registryKeys e =
     map g_key (gaugeDefs e) @ concat (map (\<lambda>d. map fst (c_labelMap d)) (counterVecDefs e))"

definition references :: "Exporter \<Rightarrow> string \<Rightarrow> nat" where
  "references e k = count_list (registryKeys e) k"

text \<open>The fetched entries without the raw key \<open>k\<close>.\<close>

definition removeKey :: "string \<Rightarrow> StatsEntry list \<Rightarrow> StatsEntry list" where
  "removeKey k stats = filter (\<lambda>s. Name s \<noteq> k) stats"

text \<open>The value of the child with label value \<open>lv\<close> of the counter vector with id \<open>i\<close>.\<close>

definition labelValue :: "Exporter \<Rightarrow> int \<Rightarrow> string \<Rightarrow> float64 option" where
  "labelValue e i lv =
     (case map_of (counterVecMetrics e) i of
        None \<Rightarrow> None
      | Some m \<Rightarrow> map_of (vec_children m) lv)"

definition gaugeValue :: "Exporter \<Rightarrow> int \<Rightarrow> float64 option" where
  "gaugeValue e i = map_option gauge_value (map_of (gaugeMetrics e) i)"

definition isHistogram :: "Metric \<Rightarrow> bool" where
  "isHistogram m = (case m of HistogramMetric h \<Rightarrow> True | _ \<Rightarrow> False)"

text \<open>What the loop over the gauge definitions leaves alone.\<close>

definition gaugeLoopInv :: "Exporter \<Rightarrow> Exporter \<Rightarrow> bool" where
  "gaugeLoopInv e t = (sameShape e t \<and> counterVecMetrics t = counterVecMetrics e
      \<and> up t = up e \<and> totalScrapes t = totalScrapes e
      \<and> counter_opts (jsonParseFailures t) = counter_opts (jsonParseFailures e))"

text \<open>What the loops over the counter vector definitions leave alone.\<close>

definition labelLoopInv :: "Exporter \<Rightarrow> Exporter \<Rightarrow> bool" where
  "labelLoopInv e t = (sameShape e t \<and> gaugeMetrics t = gaugeMetrics e
      \<and> up t = up e \<and> totalScrapes t = totalScrapes e
      \<and> counter_opts (jsonParseFailures t) = counter_opts (jsonParseFailures e))"

text \<open>The kinds of metric on the stream.\<close>

definition isGauge :: "Metric \<Rightarrow> bool" where
  "isGauge m = (case m of GaugeMetric g \<Rightarrow> True | _ \<Rightarrow> False)"

definition isCounterVecChild :: "Metric \<Rightarrow> bool" where
  "isCounterVecChild m = (case m of CounterVecChild opts names lv v \<Rightarrow> True | _ \<Rightarrow> False)"

text \<open>The snapshot of a cycle, from the outcome of the fetch.\<close>

definition snapshotOf :: "error + StatsEntry list \<Rightarrow> statsMap" where
  "snapshotOf r = makeStatsMap (case r of Inl err \<Rightarrow> [] | Inr stats \<Rightarrow> stats)"

text \<open>What \<open>resetMetrics\<close> does to the counter vectors.\<close>

definition resetVecs :: "(int \<times> CounterVec) list \<Rightarrow> (int \<times> CounterVec) list" where
  "resetVecs cvs = map (\<lambda>(i, m). (i, CounterVec_Reset m)) cvs"

text \<open>The value that \<open>setMetrics\<close> gives a gauge for the raw value \<open>v\<close>.\<close>

definition gaugeOf :: "gaugeDefinition \<Rightarrow> float64 \<Rightarrow> float64" where
  "gaugeOf d v = (if HasSuffix (g_key d) ''latency'' then v / 1000000 else v)"

text \<open>
  A gauge is derived from the raw key \<open>k\<close> when a gauge definition with its id has the
  source key \<open>k\<close>; a label value of a counter vector is, when a definition with the id
  of the vector maps \<open>k\<close> to that label value.
\<close>

definition gaugeDerivedFrom :: "Exporter \<Rightarrow> string \<Rightarrow> int \<Rightarrow> bool" where
  "gaugeDerivedFrom e k i = list_ex (\<lambda>d. g_id d = i \<and> g_key d = k) (gaugeDefs e)"

definition labelDerivedFrom :: "Exporter \<Rightarrow> string \<Rightarrow> int \<Rightarrow> string \<Rightarrow> bool" where
  "labelDerivedFrom e k i l =
     list_ex (\<lambda>d. c_id d = i \<and> list_ex (\<lambda>en. snd en = l \<and> fst en = k) (c_labelMap d))
       (counterVecDefs e)"

text \<open>What a lookup adds to the parse failure counter, and the value of that counter.\<close>

definition missing :: "statsMap \<Rightarrow> string \<Rightarrow> real" where
  "missing sm key = (if map_of sm key = None then 1 else 0)"

definition failures :: "Exporter \<Rightarrow> real" where
  "failures e = counter_value (jsonParseFailures e)"

text \<open>
  A snapshot of a recursor with every key of its registry, for the examples: a latency
  of \<open>5000000\<close> microseconds, and \<open>1, 10, 100, 1000, 0\<close> in the response time buckets.
\<close>

definition statsEntry :: "string \<Rightarrow> float64 \<Rightarrow> StatsEntry" where
  "statsEntry n v = \<lparr>Name = n, Kind = ''StatisticItem'', Value = v\<rparr>"

definition recursorSample :: "StatsEntry list" where
  "recursorSample =
     [statsEntry ''qa-latency'' 5000000, statsEntry ''concurrent-queries'' 2,
      statsEntry ''cache-entries'' 100,
      statsEntry ''questions'' 10, statsEntry ''tcp-questions'' 2,
      statsEntry ''all-outqueries'' 7, statsEntry ''tcp-outqueries'' 1,
      statsEntry ''cache-hits'' 8, statsEntry ''cache-misses'' 1,
      statsEntry ''servfail-answers'' 0, statsEntry ''nxdomain-answers'' 3,
      statsEntry ''noerror-answers'' 9,
      statsEntry ''answers0-1'' 1, statsEntry ''answers1-10'' 10,
      statsEntry ''answers10-100'' 100, statsEntry ''answers100-1000'' 1000,
      statsEntry ''answers-slow'' 0,
      statsEntry ''resource-limits'' 0, statsEntry ''over-capacity-drops'' 0,
      statsEntry ''unreachables'' 0, statsEntry ''outgoing-timeouts'' 0]"

text \<open>
  \<open>makeRecursorRTimeHistogram\<close> with the order in which the \<open>range\<close> loop meets the
  entries of \<open>rTimeBucketMap\<close> as an argument.
\<close>

definition rTimeHistogramIn :: "(string \<times> float64) list \<Rightarrow> statsMap \<Rightarrow> error + Histogram" where
  "rTimeHistogramIn order statsMap =
     (case rTimeLoop order statsMap ([], 0) of
        Inl err \<Rightarrow> Inl err
      | Inr (buckets, count) \<Rightarrow>
          (let keys = sort (map fst buckets);
               (cumsum, buckets') = cumulate keys (0, buckets)
           in Inr \<lparr>h_fqName = namespace @ ''_recursor_response_time_seconds'',
                   h_help = ''Histogram of PowerDNS recursor response times in seconds.'',
                   h_count = count, h_sum = 0, h_buckets = buckets'\<rparr>))"

text \<open>The converted value under a key, \<open>0\<close> for a key that is not there.\<close>

definition countOf :: "statsMap \<Rightarrow> string \<Rightarrow> uint64" where
  "countOf sm k = (case map_of sm k of None \<Rightarrow> 0 | Some v \<Rightarrow> uint64 v)"

section \<open>Properties of the histogram\<close>

lemma unat_uint64:
  assumes "0 \<le> x" and "nat \<lfloor>x\<rfloor> < 2 ^ 64"
  shows "unat (uint64 x) = nat \<lfloor>x\<rfloor>"
proof -
  have "0 \<le> \<lfloor>x\<rfloor>" using assms(1) by simp
  then have "uint64 x = word_of_nat (nat \<lfloor>x\<rfloor>)"
    using assms(1) by (simp add: uint64_def)
  then show ?thesis using assms(2)
    by (simp add: unat_of_nat)
qed

text \<open>With the five keys present, both loops run to their end; the result in closed form.\<close>

lemma makeRecursorRTimeHistogram_present:
  assumes "map_of sm ''answers0-1'' = Some v1"
      and "map_of sm ''answers1-10'' = Some v2"
      and "map_of sm ''answers10-100'' = Some v3"
      and "map_of sm ''answers100-1000'' = Some v4"
      and "map_of sm ''answers-slow'' = Some v5"
  shows "\<exists>h. makeRecursorRTimeHistogram sm = Inr h
           \<and> bucketBounds h = [0.001, 0.01, 0.1, 1]
           \<and> bucketCounts h =
               [uint64 v1, uint64 v1 + uint64 v2, uint64 v1 + uint64 v2 + uint64 v3,
                uint64 v1 + uint64 v2 + uint64 v3 + uint64 v4]
           \<and> h_count h = uint64 v1 + uint64 v2 + uint64 v3 + uint64 v4 + uint64 v5"
  using assms
  by (simp add: makeRecursorRTimeHistogram_def rTimeBucketMap_def index0_def
      bucketCounts_def bucketBounds_def Let_def)

text \<open>
  Claim C1, as amended. For a snapshot that holds the five response time keys with
  non-negative values whose integer parts (what \<open>uint64\<close> keeps of them) add up to less
  than \<open>2^64\<close>, \<open>makeRecursorRTimeHistogram\<close> returns a histogram over the four finite
  bounds \<open>0.001, 0.01, 0.1, 1\<close>; the count of each bucket is the sum of the integer parts
  up to its bound, so the counts are non-decreasing in the order of the bounds; and the
  total count is the sum of all five integer parts, the overflow key included.
\<close>

theorem makeRecursorRTimeHistogram_cumulative:
  assumes "map_of sm ''answers0-1'' = Some v1"
      and "map_of sm ''answers1-10'' = Some v2"
      and "map_of sm ''answers10-100'' = Some v3"
      and "map_of sm ''answers100-1000'' = Some v4"
      and "map_of sm ''answers-slow'' = Some v5"
      and "0 \<le> v1" and "0 \<le> v2" and "0 \<le> v3" and "0 \<le> v4" and "0 \<le> v5"
      and "nat \<lfloor>v1\<rfloor> + nat \<lfloor>v2\<rfloor> + nat \<lfloor>v3\<rfloor> + nat \<lfloor>v4\<rfloor> + nat \<lfloor>v5\<rfloor> < 2 ^ 64"
  shows "\<exists>h. makeRecursorRTimeHistogram sm = Inr h
           \<and> bucketBounds h = [0.001, 0.01, 0.1, 1]
           \<and> map unat (bucketCounts h) =
               [nat \<lfloor>v1\<rfloor>, nat \<lfloor>v1\<rfloor> + nat \<lfloor>v2\<rfloor>, nat \<lfloor>v1\<rfloor> + nat \<lfloor>v2\<rfloor> + nat \<lfloor>v3\<rfloor>,
                nat \<lfloor>v1\<rfloor> + nat \<lfloor>v2\<rfloor> + nat \<lfloor>v3\<rfloor> + nat \<lfloor>v4\<rfloor>]
           \<and> sorted (bucketCounts h)
           \<and> unat (h_count h) = nat \<lfloor>v1\<rfloor> + nat \<lfloor>v2\<rfloor> + nat \<lfloor>v3\<rfloor> + nat \<lfloor>v4\<rfloor> + nat \<lfloor>v5\<rfloor>"
proof -
  let ?n1 = "nat \<lfloor>v1\<rfloor>" and ?n2 = "nat \<lfloor>v2\<rfloor>" and ?n3 = "nat \<lfloor>v3\<rfloor>"
    and ?n4 = "nat \<lfloor>v4\<rfloor>" and ?n5 = "nat \<lfloor>v5\<rfloor>"
  have u1: "unat (uint64 v1) = ?n1" and u2: "unat (uint64 v2) = ?n2"
    and u3: "unat (uint64 v3) = ?n3" and u4: "unat (uint64 v4) = ?n4"
    and u5: "unat (uint64 v5) = ?n5"
    using assms(6-11) by (simp_all add: unat_uint64)
  have s2: "unat (uint64 v1 + uint64 v2) = ?n1 + ?n2"
    using assms(11) u1 u2 by (simp add: unat_add_lem [THEN iffD1])
  have s3: "unat (uint64 v1 + uint64 v2 + uint64 v3) = ?n1 + ?n2 + ?n3"
    using assms(11) s2 u3 by (simp add: unat_add_lem [THEN iffD1])
  have s4: "unat (uint64 v1 + uint64 v2 + uint64 v3 + uint64 v4) = ?n1 + ?n2 + ?n3 + ?n4"
    using assms(11) s3 u4 by (simp add: unat_add_lem [THEN iffD1])
  have s5: "unat (uint64 v1 + uint64 v2 + uint64 v3 + uint64 v4 + uint64 v5)
              = ?n1 + ?n2 + ?n3 + ?n4 + ?n5"
    using assms(11) s4 u5 by (simp add: unat_add_lem [THEN iffD1])
  obtain h where h: "makeRecursorRTimeHistogram sm = Inr h"
      "bucketBounds h = [0.001, 0.01, 0.1, 1]"
      "bucketCounts h =
         [uint64 v1, uint64 v1 + uint64 v2, uint64 v1 + uint64 v2 + uint64 v3,
          uint64 v1 + uint64 v2 + uint64 v3 + uint64 v4]"
      "h_count h = uint64 v1 + uint64 v2 + uint64 v3 + uint64 v4 + uint64 v5"
    using makeRecursorRTimeHistogram_present [OF assms(1-5)] by blast
  have "sorted (bucketCounts h)"
    by (simp add: h(3) word_le_nat_alt u1 s2 s3 s4)
  then show ?thesis
    using h by (simp add: u1 s2 s3 s4 s5)
qed

text \<open>The scenario of the specification: the values \<open>1, 10, 100, 1000, 0\<close>.\<close>

theorem makeRecursorRTimeHistogram_cumulative_witness:
  "\<exists>h. makeRecursorRTimeHistogram
          [(''answers0-1'', 1), (''answers1-10'', 10), (''answers10-100'', 100),
           (''answers100-1000'', 1000), (''answers-slow'', 0)] = Inr h
      \<and> bucketBounds h = [0.001, 0.01, 0.1, 1]
      \<and> map unat (bucketCounts h) = [1, 11, 111, 1111]
      \<and> sorted (bucketCounts h)
      \<and> unat (h_count h) = 1111"
  using makeRecursorRTimeHistogram_cumulative
    [of "[(''answers0-1'', 1), (''answers1-10'', 10), (''answers10-100'', 100),
          (''answers100-1000'', 1000), (''answers-slow'', 0)]" 1 10 100 1000 0]
  by simp

text \<open>
  Claim C1 as stated fails where the sum leaves \<open>uint64\<close>: with \<open>2^63\<close> in each of the
  first two buckets the second cumulative count wraps to \<open>0\<close>, below the first, and the
  total is \<open>0\<close>. It also fails on values that are not whole: with \<open>0.5\<close> in each of the
  first two buckets the total is \<open>0\<close>, not \<open>1\<close>.
\<close>

theorem makeRecursorRTimeHistogram_overflow_counterexample:
  "map_sum id bucketCounts (makeRecursorRTimeHistogram
      [(''answers0-1'', 9223372036854775808), (''answers1-10'', 9223372036854775808),
       (''answers10-100'', 0), (''answers100-1000'', 0), (''answers-slow'', 0)])
     = Inr [9223372036854775808, 0, 0, 0]
   \<and> \<not> sorted [9223372036854775808, 0, 0, 0 :: uint64]
   \<and> map_sum id h_count (makeRecursorRTimeHistogram
      [(''answers0-1'', 9223372036854775808), (''answers1-10'', 9223372036854775808),
       (''answers10-100'', 0), (''answers100-1000'', 0), (''answers-slow'', 0)])
     = Inr 0
   \<and> map_sum id h_count (makeRecursorRTimeHistogram
      [(''answers0-1'', 0.5), (''answers1-10'', 0.5),
       (''answers10-100'', 0), (''answers100-1000'', 0), (''answers-slow'', 0)])
     = Inr 0"
  by (simp add: makeRecursorRTimeHistogram_def rTimeBucketMap_def index0_def uint64_def
      bucketCounts_def bucketBounds_def Let_def)

section \<open>Loops\<close>

text \<open>Invariants, totality, two runs side by side, and counting, for \<open>forRange\<close>.\<close>

lemma forRange_invariant:
  assumes "forRange body xs s = Inr s'" and "P s"
    and "\<And>x t t'. x \<in> set xs \<Longrightarrow> P t \<Longrightarrow> body x t = Inr t' \<Longrightarrow> P t'"
  shows "P s'"
  using assms
proof (induction xs arbitrary: s)
  case Nil
  then show ?case by simp
next
  case (Cons x xs)
  from Cons.prems(1) obtain t where t: "body x s = Inr t" "forRange body xs t = Inr s'"
    by (auto split: sum.splits)
  have "P t" by (rule Cons.prems(3) [OF _ Cons.prems(2) t(1)]) simp
  then show ?case by (rule Cons.IH [OF t(2)]) (rule Cons.prems(3), simp_all)
qed

lemma forRange_returns:
  assumes "P s"
    and "\<And>x t. x \<in> set xs \<Longrightarrow> P t \<Longrightarrow> \<exists>t'. body x t = Inr t' \<and> P t'"
  shows "\<exists>s'. forRange body xs s = Inr s' \<and> P s'"
  using assms
proof (induction xs arbitrary: s)
  case Nil
  then show ?case by simp
next
  case (Cons x xs)
  from Cons.prems obtain t where t: "body x s = Inr t" "P t"
    by (meson list.set_intros(1))
  from Cons.IH [OF t(2)] Cons.prems(2) obtain s' where "forRange body xs t = Inr s'" "P s'"
    by (meson list.set_intros(2))
  then show ?case using t(1) by simp
qed

lemma forRange_related:
  assumes "forRange f xs s = Inr s'" and "forRange g xs t = Inr t'" and "R s t"
    and "\<And>x a a' b b'. x \<in> set xs \<Longrightarrow> R a b \<Longrightarrow> f x a = Inr a' \<Longrightarrow> g x b = Inr b' \<Longrightarrow> R a' b'"
  shows "R s' t'"
  using assms
proof (induction xs arbitrary: s t)
  case Nil
  then show ?case by simp
next
  case (Cons x xs)
  from Cons.prems(1) obtain a where a: "f x s = Inr a" "forRange f xs a = Inr s'"
    by (auto split: sum.splits)
  from Cons.prems(2) obtain b where b: "g x t = Inr b" "forRange g xs b = Inr t'"
    by (auto split: sum.splits)
  have "R a b" by (rule Cons.prems(4) [OF _ Cons.prems(3) a(1) b(1)]) simp
  then show ?case by (rule Cons.IH [OF a(2) b(2)]) (rule Cons.prems(4), simp_all)
qed

lemma forRange_count:
  fixes m :: "'s \<Rightarrow> real"
  assumes "forRange body xs s = Inr s'"
    and "\<And>x t t'. x \<in> set xs \<Longrightarrow> body x t = Inr t' \<Longrightarrow> m t' = m t + c x"
  shows "m s' = m s + sum_list (map c xs)"
  using assms
proof (induction xs arbitrary: s)
  case Nil
  then show ?case by simp
next
  case (Cons x xs)
  from Cons.prems(1) obtain t where t: "body x s = Inr t" "forRange body xs t = Inr s'"
    by (auto split: sum.splits)
  have "m t = m s + c x" using Cons.prems(2) t(1) by simp
  moreover have "m s' = m t + sum_list (map c xs)"
    using Cons.IH [OF t(2)] Cons.prems(2) by simp
  ultimately show ?case by simp
qed

section \<open>A cycle whose fetch fails, and a cycle on an empty array\<close>

lemma makeRecursorRTimeHistogram_Nil:
  "makeRecursorRTimeHistogram [] = Inl (KeyNotFound ''answers0-1'')"
  by (simp add: makeRecursorRTimeHistogram_def rTimeBucketMap_def)

lemma makeStatsMap_Nil: "makeStatsMap [] = []"
  by (simp add: makeStatsMap_def)

lemma setMetrics_empty: "setMetrics e (Some []) = Inr ([], e)"
  by (simp add: setMetrics_def makeStatsMap_Nil)

lemma setMetrics_closed: "setMetrics e None = Inr ([], e)"
  by (simp add: setMetrics_def makeStatsMap_Nil)

lemma children_resetMetrics:
  "list_all (\<lambda>(i, m). vec_children m = []) (counterVecMetrics (resetMetrics e))"
  by (auto simp: resetMetrics_def list_all_iff CounterVec_Reset_def)

lemma collect_no_children:
  "list_all (\<lambda>(i, m). vec_children m = []) cvs \<Longrightarrow>
     concat (map (\<lambda>(i, m). CounterVec_Collect m) cvs) = []"
  by (auto simp: CounterVec_Collect_def list_all_iff)

lemma collectMetrics_no_children:
  "list_all (\<lambda>(i, m). vec_children m = []) (counterVecMetrics e) \<Longrightarrow>
     collectMetrics e [] = map (\<lambda>(i, g). GaugeMetric g) (gaugeMetrics e)"
  unfolding collectMetrics_def
  by (simp only: collect_no_children makeRecursorRTimeHistogram_Nil) simp

lemma Collect_unfold:
  assumes "scrape e r = (e1, js)" and "setMetrics (resetMetrics e1) js = Inr (sm, e3)"
  shows "Exporter_Collect e r =
           Inr (e3, [GaugeMetric (up e3), CounterMetric (totalScrapes e3),
                     CounterMetric (jsonParseFailures e3)] @ collectMetrics e3 sm)"
  using assms by (simp add: Exporter_Collect_def)

text \<open>
  Claim C2, as amended. On a failed fetch the cycle is not cut short: \<open>Collect\<close> goes on
  to \<open>resetMetrics\<close>, \<open>setMetrics\<close> (which returns at once on the empty snapshot) and
  \<open>collectMetrics\<close>. So the health gauge is \<open>0\<close>, the scrape count and the parse
  failure count each grow by \<open>1\<close>, the gauges keep their values, every counter vector
  is reset and has no child left, and the stream holds the health gauge, the two
  counters and then every gauge instrument: no counter vector sample and no histogram.
\<close>

theorem Collect_fetch_failure:
  "\<exists>e'. Exporter_Collect e (Inl err) =
          Inr (e', [GaugeMetric (up e'), CounterMetric (totalScrapes e'),
                    CounterMetric (jsonParseFailures e')]
                   @ map (\<lambda>(i, g). GaugeMetric g) (gaugeMetrics e'))
      \<and> gauge_value (up e') = 0
      \<and> counter_value (totalScrapes e') = counter_value (totalScrapes e) + 1
      \<and> counter_value (jsonParseFailures e') = counter_value (jsonParseFailures e) + 1
      \<and> gaugeMetrics e' = gaugeMetrics e
      \<and> counterVecMetrics e' = map (\<lambda>(i, m). (i, CounterVec_Reset m)) (counterVecMetrics e)
      \<and> list_all (\<lambda>(i, m). vec_children m = []) (counterVecMetrics e')"
proof -
  define e1 where "e1 = fst (scrape e (Inl err))"
  define e2 where "e2 = resetMetrics e1"
  have s: "scrape e (Inl err) = (e1, None)"
    by (simp add: e1_def scrape_def Let_def)
  have ch: "list_all (\<lambda>(i, m). vec_children m = []) (counterVecMetrics e2)"
    unfolding e2_def by (rule children_resetMetrics)
  have "Exporter_Collect e (Inl err) =
          Inr (e2, [GaugeMetric (up e2), CounterMetric (totalScrapes e2),
                    CounterMetric (jsonParseFailures e2)] @ collectMetrics e2 [])"
    by (rule Collect_unfold [OF s]) (simp add: e2_def setMetrics_closed)
  then have "Exporter_Collect e (Inl err) =
          Inr (e2, [GaugeMetric (up e2), CounterMetric (totalScrapes e2),
                    CounterMetric (jsonParseFailures e2)]
                   @ map (\<lambda>(i, g). GaugeMetric g) (gaugeMetrics e2))"
    by (simp only: collectMetrics_no_children [OF ch])
  moreover have "gauge_value (up e2) = 0"
    and "counter_value (totalScrapes e2) = counter_value (totalScrapes e) + 1"
    and "counter_value (jsonParseFailures e2) = counter_value (jsonParseFailures e) + 1"
    and "gaugeMetrics e2 = gaugeMetrics e"
    and "counterVecMetrics e2 = map (\<lambda>(i, m). (i, CounterVec_Reset m)) (counterVecMetrics e)"
    by (simp_all add: e2_def e1_def scrape_def Let_def resetMetrics_def Gauge_Set_def Counter_Inc_def)
  ultimately show ?thesis using ch by blast
qed

text \<open>
  Claim C10. A successful fetch of an empty array: \<open>setMetrics\<close> returns the empty
  snapshot and the exporter as it got it, before any lookup. After the cycle the gauges
  and the parse failure counter are as before it, and no counter vector has a child.
\<close>

theorem Collect_empty_stats:
  "setMetrics e (Some []) = Inr ([], e)
   \<and> (\<exists>e' out. Exporter_Collect e (Inr []) = Inr (e', out)
        \<and> gaugeMetrics e' = gaugeMetrics e
        \<and> jsonParseFailures e' = jsonParseFailures e
        \<and> list_all (\<lambda>(i, m). vec_children m = []) (counterVecMetrics e'))"
proof -
  define e1 where "e1 = fst (scrape e (Inr []))"
  define e2 where "e2 = resetMetrics e1"
  have s: "scrape e (Inr []) = (e1, Some [])"
    by (simp add: e1_def scrape_def Let_def)
  have ch: "list_all (\<lambda>(i, m). vec_children m = []) (counterVecMetrics e2)"
    unfolding e2_def by (rule children_resetMetrics)
  have "Exporter_Collect e (Inr []) =
          Inr (e2, [GaugeMetric (up e2), CounterMetric (totalScrapes e2),
                    CounterMetric (jsonParseFailures e2)] @ collectMetrics e2 [])"
    by (rule Collect_unfold [OF s]) (simp add: e2_def setMetrics_empty)
  moreover have "gaugeMetrics e2 = gaugeMetrics e" and "jsonParseFailures e2 = jsonParseFailures e"
    by (simp_all add: e2_def e1_def scrape_def Let_def resetMetrics_def)
  ultimately show ?thesis using ch setMetrics_empty by blast
qed

lemmas registry_defs = selectDefs_def recursorGaugeDefs_def recursorCounterVecDefs_def
  authoritativeGaugeDefs_def authoritativeCounterVecDefs_def dnsdistGaugeDefs_def
  dnsdistCounterVecDefs_def gaugeDef_def counterVecDef_def rTimeLabelMap_def rCodeLabelMap_def
  exceptionsLabelMap_def

lemmas cycle_defs = Exporter_Collect_def scrape_def resetMetrics_def setMetrics_def
  setGauge_def setLabel_def setCounterVec_def makeStatsMap_def collectMetrics_def
  makeRecursorRTimeHistogram_def rTimeBucketMap_def NewExporter_def newGaugeMetric_def
  newCounterVecMetric_def Gauge_Set_def Counter_Inc_def CounterVec_Reset_def
  CounterVec_SetLabel_def CounterVec_Collect_def HasSuffix_def Let_def

text \<open>
  Claim C2 as stated fails on the recursor exporter: after a cycle that set the label
  \<open>udp\<close> of the first counter vector to \<open>10\<close>, a cycle with a failed fetch leaves that
  vector without the label, and it publishes six metrics, one of them the latency
  gauge of the registry.
\<close>

theorem Collect_fetch_failure_counterexample:
  "(case Exporter_Collect (NewExporter ''key'' ''recursor'' ''http://localhost:8001/'')
           (Inr [\<lparr>Name = ''questions'', Kind = ''StatisticItem'', Value = 10\<rparr>]) of
      Inl p \<Rightarrow> False
    | Inr (e1, out1) \<Rightarrow>
        labelValue e1 1 ''udp'' = Some 10
        \<and> (case Exporter_Collect e1 (Inl (StatusError ''Not Found'')) of
             Inl p \<Rightarrow> False
           | Inr (e2, out2) \<Rightarrow>
               labelValue e2 1 ''udp'' = None
               \<and> length out2 = 6
               \<and> count_list out2
                    (GaugeMetric (newGaugeMetric ''recursor'' ''latency_average_seconds''
                       ''Exponential moving average of question-to-answer latency.'')) = 1))"
  by (simp add: cycle_defs registry_defs labelValue_def)

section \<open>The snapshot\<close>

lemma fold_update_other:
  "k \<notin> Name ` set post \<Longrightarrow>
     map_of (fold (\<lambda>s m. AList.update (Name s) (Value s) m) post m0) k = map_of m0 k"
  by (induction post arbitrary: m0) (auto simp: update_conv')

lemma fold_update_distinct:
  "distinct (map fst m0) \<Longrightarrow>
     distinct (map fst (fold (\<lambda>s m. AList.update (Name s) (Value s) m) stats m0))"
  by (induction stats arbitrary: m0) (auto simp: distinct_update)

lemma fold_update_keys:
  "fst ` set (fold (\<lambda>s m. AList.update (Name s) (Value s) m) stats m0)
     = fst ` set m0 \<union> Name ` set stats"
  by (induction stats arbitrary: m0) (auto simp: dom_update)

lemma makeStatsMap_distinct: "distinct (map fst (makeStatsMap stats))"
  by (simp add: makeStatsMap_def fold_update_distinct)

lemma makeStatsMap_keys: "fst ` set (makeStatsMap stats) = Name ` set stats"
  by (simp add: makeStatsMap_def fold_update_keys)

lemma makeStatsMap_last:
  assumes "Name s \<notin> Name ` set post"
  shows "map_of (makeStatsMap (pre @ s # post)) (Name s) = Some (Value s)"
  using assms by (simp add: makeStatsMap_def fold_update_other update_conv')

lemma setMetrics_statsMap:
  "setMetrics e (Some stats) = Inr (sm, e') \<Longrightarrow> sm = makeStatsMap stats"
  by (auto simp: setMetrics_def Let_def split: if_splits sum.splits)

text \<open>
  Claim C9. The snapshot that \<open>setMetrics\<close> builds from the fetched entries has each
  key once, its keys are the names of the entries, and an entry that no later entry
  repeats the name of gives the value under its name: the last occurrence wins.
\<close>

theorem snapshot_last_write_wins:
  assumes "setMetrics e (Some stats) = Inr (sm, e')"
  shows "distinct (map fst sm) \<and> fst ` set sm = Name ` set stats
         \<and> (\<forall>pre s post. stats = pre @ s # post \<and> Name s \<notin> Name ` set post
               \<longrightarrow> map_of sm (Name s) = Some (Value s))"
  using setMetrics_statsMap [OF assms]
  by (auto simp: makeStatsMap_distinct makeStatsMap_keys makeStatsMap_last)

theorem snapshot_last_write_wins_witness:
  "setMetrics (NewExporter '''' ''dnsdist'' '''')
     (Some [\<lparr>Name = ''a'', Kind = ''StatisticItem'', Value = 1\<rparr>,
            \<lparr>Name = ''b'', Kind = ''StatisticItem'', Value = 2\<rparr>,
            \<lparr>Name = ''a'', Kind = ''StatisticItem'', Value = 3\<rparr>])
     = Inr ([(''a'', 3), (''b'', 2)], NewExporter '''' ''dnsdist'' '''')
   \<and> distinct (map fst [(''a'', 3 :: real), (''b'', 2)])
   \<and> map_of [(''a'', 3 :: real), (''b'', 2)] ''a'' = Some 3"
proof -
  let ?a1 = "\<lparr>Name = ''a'', Kind = ''StatisticItem'', Value = 1\<rparr>"
  let ?b = "\<lparr>Name = ''b'', Kind = ''StatisticItem'', Value = 2\<rparr>"
  let ?a3 = "\<lparr>Name = ''a'', Kind = ''StatisticItem'', Value = 3\<rparr>"
  have h: "setMetrics (NewExporter '''' ''dnsdist'' '''') (Some [?a1, ?b, ?a3])
             = Inr ([(''a'', 3), (''b'', 2)], NewExporter '''' ''dnsdist'' '''')"
    by (simp add: setMetrics_def makeStatsMap_def NewExporter_def selectDefs_def
        dnsdistGaugeDefs_def dnsdistCounterVecDefs_def Let_def)
  from snapshot_last_write_wins [OF h]
  have "distinct (map fst [(''a'', 3 :: real), (''b'', 2)])"
    and "\<forall>pre s post. [?a1, ?b, ?a3] = pre @ s # post \<and> Name s \<notin> Name ` set post
          \<longrightarrow> map_of [(''a'', 3 :: real), (''b'', 2)] (Name s) = Some (Value s)"
    by blast+
  from this(1) this(2) [rule_format, of "[?a1, ?b]" ?a3 "[]"] h
  show ?thesis by simp
qed

section \<open>An unknown server type\<close>

text \<open>
  Claim C8. For a server type other than \<open>recursor\<close>, \<open>authoritative\<close> and \<open>dnsdist\<close>,
  \<open>NewExporter\<close> returns an exporter with no gauge definition, no counter vector
  definition and no instrument for either; every cycle of it publishes the health
  gauge, the scrape counter and the parse failure counter and nothing else, and leaves
  the exporter without definitions and instruments.
\<close>

theorem NewExporter_unknown_flavor:
  assumes "serverType \<noteq> ''recursor''" and "serverType \<noteq> ''authoritative''"
    and "serverType \<noteq> ''dnsdist''"
  shows "gaugeDefs (NewExporter apiKey serverType hostURL) = []
       \<and> counterVecDefs (NewExporter apiKey serverType hostURL) = []
       \<and> gaugeMetrics (NewExporter apiKey serverType hostURL) = []
       \<and> counterVecMetrics (NewExporter apiKey serverType hostURL) = []
       \<and> (\<exists>e'. Exporter_Collect (NewExporter apiKey serverType hostURL) response
                 = Inr (e', [GaugeMetric (up e'), CounterMetric (totalScrapes e'),
                             CounterMetric (jsonParseFailures e')])
              \<and> gaugeDefs e' = [] \<and> counterVecDefs e' = []
              \<and> gaugeMetrics e' = [] \<and> counterVecMetrics e' = []
              \<and> ServerType e' = serverType)"
proof -
  have sel: "selectDefs serverType = ([], [])"
    using assms by (simp add: selectDefs_def)
  show ?thesis
    by (cases response)
      (simp_all add: NewExporter_def sel Exporter_Collect_def scrape_def resetMetrics_def
        setMetrics_def collectMetrics_def assms Let_def)
qed

theorem NewExporter_unknown_flavor_witness:
  "gaugeDefs (NewExporter ''key'' ''pdns'' ''http://localhost:8001/'') = []
   \<and> counterVecDefs (NewExporter ''key'' ''pdns'' ''http://localhost:8001/'') = []
   \<and> (\<exists>e'. Exporter_Collect (NewExporter ''key'' ''pdns'' ''http://localhost:8001/'')
               (Inr [\<lparr>Name = ''questions'', Kind = ''StatisticItem'', Value = 10\<rparr>])
             = Inr (e', [GaugeMetric (up e'), CounterMetric (totalScrapes e'),
                         CounterMetric (jsonParseFailures e')]))"
  using NewExporter_unknown_flavor [of "''pdns''" "''key''" "''http://localhost:8001/''"
      "Inr [\<lparr>Name = ''questions'', Kind = ''StatisticItem'', Value = 10\<rparr>]"]
  by auto

section \<open>The shape of the exporter\<close>

lemma map_of_update_keys:
  "map_of al k = Some v \<Longrightarrow> map fst (AList.update k w al) = map fst al"
  by (induction al) (auto split: if_splits)

lemma same_keys_present:
  assumes "map fst al = map fst bl"
  shows "(map_of al k \<noteq> None) = (map_of bl k \<noteq> None)"
proof -
  have "fst ` set al = fst ` set bl"
    using assms by (metis set_map)
  then show ?thesis by (simp only: map_of_eq_None_iff)
qed

lemma sameShape_refl: "sameShape e e"
  by (simp add: sameShape_def)

lemma sameShape_trans: "sameShape a b \<Longrightarrow> sameShape b c \<Longrightarrow> sameShape a c"
  by (simp add: sameShape_def)

lemma sameShape_present:
  assumes "sameShape e e'"
  shows "gaugesPresent defs e' = gaugesPresent defs e"
    and "counterVecsPresent cdefs e' = counterVecsPresent cdefs e"
proof -
  have g: "map fst (gaugeMetrics e') = map fst (gaugeMetrics e)"
    and c: "map fst (counterVecMetrics e') = map fst (counterVecMetrics e)"
    using assms by (simp_all add: sameShape_def)
  show "gaugesPresent defs e' = gaugesPresent defs e"
    by (simp only: gaugesPresent_def same_keys_present [OF g])
  show "counterVecsPresent cdefs e' = counterVecsPresent cdefs e"
    by (simp only: counterVecsPresent_def same_keys_present [OF c])
qed

lemma sameShape_ok:
  assumes "sameShape e e'" and "exporter_ok e"
  shows "exporter_ok e'"
proof -
  have st: "ServerType e' = ServerType e" and gd: "gaugeDefs e' = gaugeDefs e"
    and cd: "counterVecDefs e' = counterVecDefs e"
    using assms(1) by (simp_all add: sameShape_def)
  from assms(2) have "gaugeDefs e = fst (selectDefs (ServerType e))"
    and "list_all2 sameEntries (snd (selectDefs (ServerType e))) (counterVecDefs e)"
    and "gaugesPresent (gaugeDefs e) e" and "counterVecsPresent (counterVecDefs e) e"
    unfolding exporter_ok_def by blast+
  then show ?thesis
    unfolding exporter_ok_def st gd cd sameShape_present [OF assms(1)] by blast
qed

lemma setGauge_effect:
  assumes "setGauge sm d e = Inr e'"
  shows "sameShape e e'" and "counterVecMetrics e' = counterVecMetrics e"
    and "up e' = up e" and "totalScrapes e' = totalScrapes e"
    and "counter_opts (jsonParseFailures e') = counter_opts (jsonParseFailures e)"
  using assms
  by (auto simp: setGauge_def sameShape_def Let_def map_of_update_keys Counter_Inc_def
      split: option.splits)

lemma setLabel_effect:
  assumes "setLabel sm i entry e = Inr e'"
  shows "sameShape e e'" and "gaugeMetrics e' = gaugeMetrics e"
    and "up e' = up e" and "totalScrapes e' = totalScrapes e"
    and "counter_opts (jsonParseFailures e') = counter_opts (jsonParseFailures e)"
  using assms
  by (auto simp: setLabel_def sameShape_def map_of_update_keys Counter_Inc_def
      split: option.splits prod.splits)

lemma setGauge_returns:
  "map_of (gaugeMetrics e) (g_id d) \<noteq> None \<Longrightarrow> \<exists>e'. setGauge sm d e = Inr e'"
  by (auto simp: setGauge_def Let_def split: option.splits)

lemma setLabel_returns:
  "map_of (counterVecMetrics e) i \<noteq> None \<Longrightarrow> \<exists>e'. setLabel sm i entry e = Inr e'"
  by (auto simp: setLabel_def split: option.splits prod.splits)

lemma gauge_loop_effect:
  assumes "forRange (setGauge sm) defs e = Inr e'"
  shows "gaugeLoopInv e e'"
proof (rule forRange_invariant [OF assms, where P = "gaugeLoopInv e"])
  show "gaugeLoopInv e e" by (simp add: gaugeLoopInv_def sameShape_refl)
next
  fix x t t'
  assume "gaugeLoopInv e t" and "setGauge sm x t = Inr t'"
  then show "gaugeLoopInv e t'"
    using setGauge_effect [of sm x t t'] by (auto simp: gaugeLoopInv_def intro: sameShape_trans)
qed

lemma label_loop_effect:
  assumes "forRange (setLabel sm i) entries e = Inr e'"
  shows "labelLoopInv e e'"
proof (rule forRange_invariant [OF assms, where P = "labelLoopInv e"])
  show "labelLoopInv e e" by (simp add: labelLoopInv_def sameShape_refl)
next
  fix x t t'
  assume "labelLoopInv e t" and "setLabel sm i x t = Inr t'"
  then show "labelLoopInv e t'"
    using setLabel_effect [of sm i x t t'] by (auto simp: labelLoopInv_def intro: sameShape_trans)
qed

lemma vec_loop_effect:
  assumes "forRange (setCounterVec sm) cdefs e = Inr e'"
  shows "labelLoopInv e e'"
proof (rule forRange_invariant [OF assms, where P = "labelLoopInv e"])
  show "labelLoopInv e e" by (simp add: labelLoopInv_def sameShape_refl)
next
  fix x t t'
  assume "labelLoopInv e t" and "setCounterVec sm x t = Inr t'"
  then show "labelLoopInv e t'"
    using label_loop_effect [of sm "c_id x" "c_labelMap x" t t']
    by (auto simp: labelLoopInv_def setCounterVec_def intro: sameShape_trans)
qed

lemma gauge_loop_returns:
  assumes "gaugesPresent defs e"
  shows "\<exists>e'. forRange (setGauge sm) defs e = Inr e'"
proof -
  have "\<exists>e'. forRange (setGauge sm) defs e = Inr e' \<and> sameShape e e'"
  proof (rule forRange_returns [where P = "sameShape e"])
    show "sameShape e e" by (rule sameShape_refl)
  next
    fix x t
    assume x: "x \<in> set defs" and t: "sameShape e t"
    have "gaugesPresent defs t" using assms t by (simp add: sameShape_present)
    then have "map_of (gaugeMetrics t) (g_id x) \<noteq> None"
      using x by (simp add: gaugesPresent_def list_all_iff)
    then obtain t' where "setGauge sm x t = Inr t'"
      using setGauge_returns by blast
    then show "\<exists>t'. setGauge sm x t = Inr t' \<and> sameShape e t'"
      using setGauge_effect(1) t sameShape_trans by blast
  qed
  then show ?thesis by blast
qed

lemma label_loop_returns:
  assumes "map_of (counterVecMetrics e) i \<noteq> None"
  shows "\<exists>e'. forRange (setLabel sm i) entries e = Inr e'"
proof -
  have "\<exists>e'. forRange (setLabel sm i) entries e = Inr e' \<and> sameShape e e'"
  proof (rule forRange_returns [where P = "sameShape e"])
    show "sameShape e e" by (rule sameShape_refl)
  next
    fix x t
    assume t: "sameShape e t"
    have "map fst (counterVecMetrics t) = map fst (counterVecMetrics e)"
      using t by (simp add: sameShape_def)
    from same_keys_present [OF this] assms
    have "map_of (counterVecMetrics t) i \<noteq> None"
      by blast
    then obtain t' where "setLabel sm i x t = Inr t'"
      using setLabel_returns by blast
    then show "\<exists>t'. setLabel sm i x t = Inr t' \<and> sameShape e t'"
      using setLabel_effect(1) t sameShape_trans by blast
  qed
  then show ?thesis by blast
qed

lemma vec_loop_returns:
  assumes "counterVecsPresent cdefs e"
  shows "\<exists>e'. forRange (setCounterVec sm) cdefs e = Inr e'"
proof -
  have "\<exists>e'. forRange (setCounterVec sm) cdefs e = Inr e' \<and> sameShape e e'"
  proof (rule forRange_returns [where P = "sameShape e"])
    show "sameShape e e" by (rule sameShape_refl)
  next
    fix x t
    assume x: "x \<in> set cdefs" and t: "sameShape e t"
    have "counterVecsPresent cdefs t" using assms t by (simp add: sameShape_present)
    then have "map_of (counterVecMetrics t) (c_id x) \<noteq> None"
      using x by (simp add: counterVecsPresent_def list_all_iff)
    then obtain t' where t': "setCounterVec sm x t = Inr t'"
      using label_loop_returns unfolding setCounterVec_def by blast
    then have "sameShape t t'"
      using label_loop_effect unfolding setCounterVec_def labelLoopInv_def by blast
    then show "\<exists>t'. setCounterVec sm x t = Inr t' \<and> sameShape e t'"
      using t' t sameShape_trans by blast
  qed
  then show ?thesis by blast
qed

text \<open>\<open>setMetrics\<close> in two cases: the empty snapshot, and the two loops.\<close>

lemma setMetrics_cases:
  assumes "setMetrics e js = Inr (sm, e')"
  obtains (empty) "sm = []" and "e' = e"
  | (loops) e1 where "sm \<noteq> []"
      and "forRange (setGauge sm) (gaugeDefs e) e = Inr e1"
      and "forRange (setCounterVec sm) (counterVecDefs e) e1 = Inr e'"
proof (cases "sm = []")
  case True
  then have "e' = e" using assms by (auto simp: setMetrics_def Let_def split: if_splits sum.splits)
  with True show ?thesis by (rule empty)
next
  case False
  with assms obtain e1 where 1: "forRange (setGauge sm) (gaugeDefs e) e = Inr e1"
    and 2: "forRange (setCounterVec sm) (counterVecDefs e1) e1 = Inr e'"
    by (auto simp: setMetrics_def Let_def split: if_splits sum.splits)
  have "counterVecDefs e1 = counterVecDefs e"
    using gauge_loop_effect [OF 1] by (simp add: gaugeLoopInv_def sameShape_def)
  with False 1 2 show ?thesis by (auto intro: loops)
qed

lemma setMetrics_returns:
  assumes "gaugesPresent (gaugeDefs e) e" and "counterVecsPresent (counterVecDefs e) e"
  shows "\<exists>e'. setMetrics e js = Inr (makeStatsMap (case js of None \<Rightarrow> [] | Some d \<Rightarrow> d), e')"
proof -
  let ?sm = "makeStatsMap (case js of None \<Rightarrow> [] | Some d \<Rightarrow> d)"
  obtain e1 where 1: "forRange (setGauge ?sm) (gaugeDefs e) e = Inr e1"
    using gauge_loop_returns [OF assms(1)] by blast
  have s: "sameShape e e1" using gauge_loop_effect [OF 1] by (simp add: gaugeLoopInv_def)
  then have "counterVecsPresent (counterVecDefs e1) e1"
    using assms(2) by (simp add: sameShape_present) (simp add: sameShape_def)
  then obtain e2 where 2: "forRange (setCounterVec ?sm) (counterVecDefs e1) e1 = Inr e2"
    using vec_loop_returns by blast
  show ?thesis using 1 2 by (simp add: setMetrics_def Let_def)
qed

lemma setMetrics_effect:
  assumes "setMetrics e js = Inr (sm, e')"
  shows "sameShape e e'" and "up e' = up e" and "totalScrapes e' = totalScrapes e"
    and "counter_opts (jsonParseFailures e') = counter_opts (jsonParseFailures e)"
proof -
  have "sameShape e e' \<and> up e' = up e \<and> totalScrapes e' = totalScrapes e
     \<and> counter_opts (jsonParseFailures e') = counter_opts (jsonParseFailures e)"
  using assms
  proof (cases rule: setMetrics_cases)
    case empty
    then show ?thesis by (simp add: sameShape_refl)
  next
    case (loops e1)
    from gauge_loop_effect [OF loops(2)] vec_loop_effect [OF loops(3)]
    show ?thesis by (auto simp: gaugeLoopInv_def labelLoopInv_def intro: sameShape_trans)
  qed
  then show "sameShape e e'" and "up e' = up e" and "totalScrapes e' = totalScrapes e"
    and "counter_opts (jsonParseFailures e') = counter_opts (jsonParseFailures e)"
    by simp_all
qed

lemma scrape_shape: "sameShape e (fst (scrape e r))"
  by (cases r) (simp_all add: scrape_def sameShape_def Let_def)

lemma resetMetrics_shape: "sameShape e (resetMetrics e)"
  by (simp add: resetMetrics_def sameShape_def case_prod_unfold comp_def)

lemma scrape_success:
  "scrape e (Inr stats) =
     (e\<lparr>totalScrapes := Counter_Inc (totalScrapes e), up := Gauge_Set 1 (up e)\<rparr>, Some stats)"
  by (simp add: scrape_def Let_def)

text \<open>A cycle of a well formed exporter does not panic, and the exporter stays well formed.\<close>

lemma scrape_snd:
  "snd (scrape e r) = (case r of Inl err \<Rightarrow> None | Inr stats \<Rightarrow> Some stats)"
  by (cases r) (simp_all add: scrape_def Let_def)

lemma Collect_ok:
  assumes "exporter_ok e"
  obtains e' where
    "setMetrics (resetMetrics (fst (scrape e r))) (snd (scrape e r)) = Inr (snapshotOf r, e')"
    and "Exporter_Collect e r =
           Inr (e', [GaugeMetric (up e'), CounterMetric (totalScrapes e'),
                     CounterMetric (jsonParseFailures e')] @ collectMetrics e' (snapshotOf r))"
    and "sameShape e e'" and "exporter_ok e'"
proof -
  define e1 where "e1 = fst (scrape e r)"
  define js where "js = snd (scrape e r)"
  define e2 where "e2 = resetMetrics e1"
  have s: "scrape e r = (e1, js)" by (simp add: e1_def js_def)
  have sh2: "sameShape e e2"
    unfolding e2_def e1_def using scrape_shape resetMetrics_shape sameShape_trans by blast
  then have ok2: "exporter_ok e2" using assms sameShape_ok by blast
  have sm: "makeStatsMap (case js of None \<Rightarrow> [] | Some d \<Rightarrow> d) = snapshotOf r"
    by (cases r) (simp_all add: js_def scrape_snd snapshotOf_def)
  obtain e' where e': "setMetrics e2 js = Inr (snapshotOf r, e')"
    using setMetrics_returns [of e2 js] ok2 sm by (auto simp: exporter_ok_def)
  have sh: "sameShape e e'"
    using setMetrics_effect(1) [OF e'] sh2 sameShape_trans by blast
  show ?thesis
  proof (rule that [of e'])
    show "setMetrics (resetMetrics (fst (scrape e r))) (snd (scrape e r)) = Inr (snapshotOf r, e')"
      using e' by (simp add: e2_def e1_def js_def)
    show "Exporter_Collect e r =
           Inr (e', [GaugeMetric (up e'), CounterMetric (totalScrapes e'),
                     CounterMetric (jsonParseFailures e')] @ collectMetrics e' (snapshotOf r))"
      by (rule Collect_unfold [OF s]) (use e' in \<open>simp add: e2_def\<close>)
    show "sameShape e e'" by (rule sh)
    show "exporter_ok e'" using sh assms by (rule sameShape_ok)
  qed
qed

lemma exporter_ok_Collect:
  assumes "exporter_ok e" and "Exporter_Collect e r = Inr (e', out)"
  shows "exporter_ok e'"
  using Collect_ok [OF assms(1), of r] assms(2) by (metis Pair_inject sum.inject(2))

lemma exporter_ok_NewExporter: "exporter_ok (NewExporter apiKey serverType hostURL)"
proof -
  consider "serverType = ''recursor''" | "serverType = ''authoritative''"
    | "serverType = ''dnsdist''"
    | "serverType \<noteq> ''recursor''" "serverType \<noteq> ''authoritative''" "serverType \<noteq> ''dnsdist''"
    by blast
  then show ?thesis
    by cases (simp_all add: exporter_ok_def NewExporter_def registry_defs gaugesPresent_def
      counterVecsPresent_def sameEntries_def)
qed

section \<open>A sample snapshot of a recursor\<close>

lemma recursor_registryKeys:
  "registryKeys (NewExporter apiKey ''recursor'' hostURL) =
     [''qa-latency'', ''concurrent-queries'', ''cache-entries'',
      ''questions'', ''tcp-questions'', ''all-outqueries'', ''tcp-outqueries'',
      ''cache-hits'', ''cache-misses'',
      ''servfail-answers'', ''nxdomain-answers'', ''noerror-answers'',
      ''answers0-1'', ''answers1-10'', ''answers10-100'', ''answers100-1000'', ''answers-slow'',
      ''resource-limits'', ''over-capacity-drops'', ''unreachables'', ''outgoing-timeouts'']"
  by (simp add: registryKeys_def NewExporter_def registry_defs)

lemma recursorSample_names:
  "map Name recursorSample =
     [''qa-latency'', ''concurrent-queries'', ''cache-entries'',
      ''questions'', ''tcp-questions'', ''all-outqueries'', ''tcp-outqueries'',
      ''cache-hits'', ''cache-misses'',
      ''servfail-answers'', ''nxdomain-answers'', ''noerror-answers'',
      ''answers0-1'', ''answers1-10'', ''answers10-100'', ''answers100-1000'', ''answers-slow'',
      ''resource-limits'', ''over-capacity-drops'', ''unreachables'', ''outgoing-timeouts'']"
  by (simp add: recursorSample_def statsEntry_def)

lemma recursorSample_complete:
  "set (registryKeys (NewExporter apiKey ''recursor'' hostURL)) \<subseteq> Name ` set recursorSample"
proof -
  have "Name ` set recursorSample = set (map Name recursorSample)" by simp
  then show ?thesis
    by (simp only: recursor_registryKeys recursorSample_names subset_refl)
qed

lemma recursorSample_statsMap:
  "makeStatsMap recursorSample =
     [(''qa-latency'', 5000000), (''concurrent-queries'', 2), (''cache-entries'', 100),
      (''questions'', 10), (''tcp-questions'', 2), (''all-outqueries'', 7),
      (''tcp-outqueries'', 1), (''cache-hits'', 8), (''cache-misses'', 1),
      (''servfail-answers'', 0), (''nxdomain-answers'', 3), (''noerror-answers'', 9),
      (''answers0-1'', 1), (''answers1-10'', 10), (''answers10-100'', 100),
      (''answers100-1000'', 1000), (''answers-slow'', 0),
      (''resource-limits'', 0), (''over-capacity-drops'', 0), (''unreachables'', 0),
      (''outgoing-timeouts'', 0)]"
  by (simp add: recursorSample_def statsEntry_def makeStatsMap_def)

section \<open>The order of the published metrics\<close>

lemma collect_children_kind:
  "list_all isCounterVecChild (concat (map (\<lambda>(i, m). CounterVec_Collect m) cvs))"
  by (auto simp: list_all_iff CounterVec_Collect_def isCounterVecChild_def)

lemma collect_gauges_kind: "list_all isGauge (map (\<lambda>(i, g). GaugeMetric g) gs)"
  by (auto simp: list_all_iff isGauge_def)

text \<open>
  Claim C7. A cycle of a well formed exporter on a successful fetch publishes, in this
  order: the health gauge, the scrape counter, the parse failure counter, the children
  of every counter vector, every gauge instrument, and last the histogram, which is
  there only for the server type \<open>recursor\<close> and only when it could be built.
\<close>

theorem Collect_order:
  assumes "exporter_ok e"
  shows "\<exists>e' cs gs hs.
           Exporter_Collect e (Inr stats) =
             Inr (e', [GaugeMetric (up e'), CounterMetric (totalScrapes e'),
                       CounterMetric (jsonParseFailures e')] @ cs @ gs @ hs)
         \<and> cs = concat (map (\<lambda>(i, m). CounterVec_Collect m) (counterVecMetrics e'))
         \<and> gs = map (\<lambda>(i, g). GaugeMetric g) (gaugeMetrics e')
         \<and> hs = (if ServerType e = ''recursor''
                 then (case makeRecursorRTimeHistogram (makeStatsMap stats) of
                         Inl err \<Rightarrow> [] | Inr h \<Rightarrow> [HistogramMetric h])
                 else [])
         \<and> list_all isCounterVecChild cs \<and> list_all isGauge gs
         \<and> list_all isHistogram hs \<and> length hs \<le> 1"
proof -
  obtain e' where c: "Exporter_Collect e (Inr stats) =
           Inr (e', [GaugeMetric (up e'), CounterMetric (totalScrapes e'),
                     CounterMetric (jsonParseFailures e')]
                    @ collectMetrics e' (snapshotOf (Inr stats)))"
    and sh: "sameShape e e'"
    using Collect_ok [OF assms, of "Inr stats"] by blast
  define hs where "hs = (if ServerType e = ''recursor''
                 then (case makeRecursorRTimeHistogram (makeStatsMap stats) of
                         Inl err \<Rightarrow> [] | Inr h \<Rightarrow> [HistogramMetric h])
                 else [])"
  have st: "ServerType e' = ServerType e" using sh by (simp add: sameShape_def)
  have "collectMetrics e' (snapshotOf (Inr stats)) =
          concat (map (\<lambda>(i, m). CounterVec_Collect m) (counterVecMetrics e'))
          @ map (\<lambda>(i, g). GaugeMetric g) (gaugeMetrics e') @ hs"
    by (simp add: collectMetrics_def snapshotOf_def hs_def st)
  moreover have "list_all isHistogram hs" and "length hs \<le> 1"
    by (simp_all add: hs_def isHistogram_def split: sum.splits)
  ultimately show ?thesis
    using c collect_children_kind collect_gauges_kind hs_def by metis
qed

theorem Collect_order_witness:
  "exporter_ok (NewExporter ''key'' ''recursor'' ''http://localhost:8001/'')
   \<and> (\<exists>e' cs gs h.
         Exporter_Collect (NewExporter ''key'' ''recursor'' ''http://localhost:8001/'')
           (Inr recursorSample)
           = Inr (e', [GaugeMetric (up e'), CounterMetric (totalScrapes e'),
                       CounterMetric (jsonParseFailures e')] @ cs @ gs @ [HistogramMetric h])
       \<and> list_all isCounterVecChild cs \<and> list_all isGauge gs
       \<and> bucketCounts h = [1, 11, 111, 1111] \<and> h_count h = 1111)"
proof -
  let ?e = "NewExporter ''key'' ''recursor'' ''http://localhost:8001/''"
  have ok: "exporter_ok ?e" by (rule exporter_ok_NewExporter)
  have t: "ServerType ?e = ''recursor''"
    by (simp add: NewExporter_def Let_def split: prod.splits)
  have "\<exists>h. makeRecursorRTimeHistogram (makeStatsMap recursorSample) = Inr h
      \<and> bucketBounds h = [0.001, 0.01, 0.1, 1]
      \<and> bucketCounts h = [uint64 1, uint64 1 + uint64 10, uint64 1 + uint64 10 + uint64 100,
           uint64 1 + uint64 10 + uint64 100 + uint64 1000]
      \<and> h_count h = uint64 1 + uint64 10 + uint64 100 + uint64 1000 + uint64 0"
    by (rule makeRecursorRTimeHistogram_present) (simp_all add: recursorSample_statsMap)
  then obtain h where h: "makeRecursorRTimeHistogram (makeStatsMap recursorSample) = Inr h
      \<and> bucketBounds h = [0.001, 0.01, 0.1, 1]
      \<and> bucketCounts h = [uint64 1, uint64 1 + uint64 10, uint64 1 + uint64 10 + uint64 100,
           uint64 1 + uint64 10 + uint64 100 + uint64 1000]
      \<and> h_count h = uint64 1 + uint64 10 + uint64 100 + uint64 1000 + uint64 0" ..
  then have hv: "bucketCounts h = [1, 11, 111, 1111]" "h_count h = 1111"
    by (simp_all add: uint64_def)
  have hh: "makeRecursorRTimeHistogram (makeStatsMap recursorSample) = Inr h"
    using h by simp
  from Collect_order [OF ok, of recursorSample]
  obtain e' cs gs where
    "Exporter_Collect ?e (Inr recursorSample)
       = Inr (e', [GaugeMetric (up e'), CounterMetric (totalScrapes e'),
                   CounterMetric (jsonParseFailures e')] @ cs @ gs @ [HistogramMetric h])"
    "list_all isCounterVecChild cs" "list_all isGauge gs"
    unfolding t hh by auto
  with ok hv show ?thesis by blast
qed

section \<open>A histogram that cannot be built\<close>

lemma rTimeLoop_missing:
  assumes "k \<in> fst ` set bm" and "map_of sm k = None"
  shows "\<exists>err. rTimeLoop bm sm acc = Inl err"
  using assms
proof (induction bm sm acc rule: rTimeLoop.induct)
  case (1 statsMap acc)
  then show ?case by simp
next
  case (2 k' v rest statsMap buckets count)
  show ?case
  proof (cases "map_of statsMap k'")
    case None
    then show ?thesis by simp
  next
    case (Some val)
    with "2.prems" have "k \<in> fst ` set rest" by auto
    with "2.IH" [OF Some] "2.prems"(2) Some show ?thesis by simp
  qed
qed

lemma makeRecursorRTimeHistogram_missing:
  assumes "k \<in> fst ` set rTimeBucketMap" and "map_of sm k = None"
  shows "\<exists>err. makeRecursorRTimeHistogram sm = Inl err"
  using rTimeLoop_missing [OF assms, of "([], 0)"]
  by (auto simp: makeRecursorRTimeHistogram_def)

lemma makeStatsMap_absent:
  "k \<notin> Name ` set stats \<Longrightarrow> map_of (makeStatsMap stats) k = None"
  by (simp add: map_of_eq_None_iff makeStatsMap_keys)

lemma filter_children:
  "filter (\<lambda>m. \<not> isHistogram m) (concat (map (\<lambda>(i, m). CounterVec_Collect m) cvs))
     = concat (map (\<lambda>(i, m). CounterVec_Collect m) cvs)"
  by (rule filter_True) (auto simp: CounterVec_Collect_def isHistogram_def)

lemma filter_gauges:
  "filter (\<lambda>m. \<not> isHistogram m) (map (\<lambda>(i, g). GaugeMetric g) gs)
     = map (\<lambda>(i, g). GaugeMetric g) gs"
  by (rule filter_True) (auto simp: isHistogram_def)

lemma collectMetrics_without_histogram:
  "filter (\<lambda>m. \<not> isHistogram m) (collectMetrics e sm)
     = concat (map (\<lambda>(i, m). CounterVec_Collect m) (counterVecMetrics e))
       @ map (\<lambda>(i, g). GaugeMetric g) (gaugeMetrics e)"
proof -
  have "filter (\<lambda>m. \<not> isHistogram m)
          (if ServerType e = ''recursor''
           then (case makeRecursorRTimeHistogram sm of Inl err \<Rightarrow> [] | Inr h \<Rightarrow> [HistogramMetric h])
           else []) = []"
  proof (cases "ServerType e = ''recursor''")
    case True
    then show ?thesis
      by (cases "makeRecursorRTimeHistogram sm") (simp_all add: isHistogram_def)
  next
    case False
    then show ?thesis by simp
  qed
  then show ?thesis
    by (simp only: collectMetrics_def filter_append filter_children filter_gauges append_Nil2)
qed

lemma collectMetrics_histogram_error:
  assumes "makeRecursorRTimeHistogram sm = Inl err"
  shows "collectMetrics e sm
     = concat (map (\<lambda>(i, m). CounterVec_Collect m) (counterVecMetrics e))
       @ map (\<lambda>(i, g). GaugeMetric g) (gaugeMetrics e)"
  using assms by (simp add: collectMetrics_def)

text \<open>
  Claim C6. When the snapshot lacks one of the five response time keys,
  \<open>makeRecursorRTimeHistogram\<close> returns an error; the cycle still returns, its stream
  holds no histogram, and what it holds is what \<open>collectMetrics\<close> sends for any
  snapshot, the histogram left out: the failure takes the histogram away and changes
  nothing else.
\<close>

theorem histogram_missing_key:
  assumes "exporter_ok e" and "k \<in> fst ` set rTimeBucketMap" and "k \<notin> Name ` set stats"
  shows "(\<exists>err. makeRecursorRTimeHistogram (makeStatsMap stats) = Inl err)
       \<and> (\<exists>e' out. Exporter_Collect e (Inr stats) = Inr (e', out)
            \<and> list_all (\<lambda>m. \<not> isHistogram m) out
            \<and> (\<forall>sm'. out = [GaugeMetric (up e'), CounterMetric (totalScrapes e'),
                             CounterMetric (jsonParseFailures e')]
                            @ filter (\<lambda>m. \<not> isHistogram m) (collectMetrics e' sm')))"
proof -
  obtain err where err: "makeRecursorRTimeHistogram (makeStatsMap stats) = Inl err"
    using makeRecursorRTimeHistogram_missing [OF assms(2) makeStatsMap_absent [OF assms(3)]]
    by blast
  obtain e' where c: "Exporter_Collect e (Inr stats) =
           Inr (e', [GaugeMetric (up e'), CounterMetric (totalScrapes e'),
                     CounterMetric (jsonParseFailures e')]
                    @ collectMetrics e' (snapshotOf (Inr stats)))"
    using Collect_ok [OF assms(1), of "Inr stats"] by blast
  define out where "out = [GaugeMetric (up e'), CounterMetric (totalScrapes e'),
                     CounterMetric (jsonParseFailures e')]
                    @ collectMetrics e' (snapshotOf (Inr stats))"
  have cm: "collectMetrics e' (snapshotOf (Inr stats))
     = concat (map (\<lambda>(i, m). CounterVec_Collect m) (counterVecMetrics e'))
       @ map (\<lambda>(i, g). GaugeMetric g) (gaugeMetrics e')"
    using err by (simp add: snapshotOf_def collectMetrics_histogram_error)
  have same: "out = [GaugeMetric (up e'), CounterMetric (totalScrapes e'),
                             CounterMetric (jsonParseFailures e')]
                            @ filter (\<lambda>m. \<not> isHistogram m) (collectMetrics e' sm')" for sm'
    by (simp only: out_def cm collectMetrics_without_histogram)
  have "list_all (\<lambda>m. \<not> isHistogram m) out"
    by (subst same [of "[]"]) (simp add: isHistogram_def list_all_iff)
  then show ?thesis using err c same unfolding out_def by blast
qed

theorem histogram_missing_key_witness:
  "exporter_ok (NewExporter ''key'' ''recursor'' ''http://localhost:8001/'')
   \<and> ''answers-slow'' \<in> fst ` set rTimeBucketMap
   \<and> ''answers-slow'' \<notin> Name ` set [statsEntry ''answers0-1'' 1, statsEntry ''answers1-10'' 10,
         statsEntry ''answers10-100'' 100, statsEntry ''answers100-1000'' 1000]
   \<and> (\<exists>err. makeRecursorRTimeHistogram (makeStatsMap
         [statsEntry ''answers0-1'' 1, statsEntry ''answers1-10'' 10,
          statsEntry ''answers10-100'' 100, statsEntry ''answers100-1000'' 1000]) = Inl err)
   \<and> (\<exists>e' out.
         Exporter_Collect (NewExporter ''key'' ''recursor'' ''http://localhost:8001/'')
           (Inr [statsEntry ''answers0-1'' 1, statsEntry ''answers1-10'' 10,
                 statsEntry ''answers10-100'' 100, statsEntry ''answers100-1000'' 1000])
           = Inr (e', out)
       \<and> list_all (\<lambda>m. \<not> isHistogram m) out)"
proof -
  let ?e = "NewExporter ''key'' ''recursor'' ''http://localhost:8001/''"
  let ?stats = "[statsEntry ''answers0-1'' 1, statsEntry ''answers1-10'' 10,
          statsEntry ''answers10-100'' 100, statsEntry ''answers100-1000'' 1000]"
  have ok: "exporter_ok ?e" by (rule exporter_ok_NewExporter)
  have k: "''answers-slow'' \<in> fst ` set rTimeBucketMap"
    by (simp add: rTimeBucketMap_def)
  have n: "''answers-slow'' \<notin> Name ` set ?stats"
    by (simp add: statsEntry_def)
  from histogram_missing_key [OF ok k n] ok k n show ?thesis by blast
qed

section \<open>The values that the loops set\<close>

lemma selectDefs_cases:
  obtains "selectDefs t = (recursorGaugeDefs, recursorCounterVecDefs)"
  | "selectDefs t = (authoritativeGaugeDefs, authoritativeCounterVecDefs)"
  | "selectDefs t = ([], [])"
proof -
  consider "t = ''recursor''" | "t \<noteq> ''recursor''" "t = ''authoritative''"
    | "t \<noteq> ''recursor''" "t \<noteq> ''authoritative''"
    by blast
  then show thesis
  proof cases
    case 1
    then show ?thesis using that(1) by (simp add: selectDefs_def)
  next
    case 2
    then show ?thesis using that(2) by (simp add: selectDefs_def)
  next
    case 3
    then show ?thesis using that(3)
      by (simp add: selectDefs_def dnsdistGaugeDefs_def dnsdistCounterVecDefs_def)
  qed
qed

lemma selectDefs_distinct:
  "distinct (map g_id (fst (selectDefs t)))"
  "distinct (map c_id (snd (selectDefs t)))"
  "list_all (\<lambda>d. distinct (map snd (c_labelMap d))) (snd (selectDefs t))"
  by (cases t rule: selectDefs_cases; simp add: registry_defs)+

lemma sameEntries_distinct:
  assumes "sameEntries d d'" and "distinct (map snd (c_labelMap d))"
  shows "distinct (map snd (c_labelMap d'))"
proof -
  have "inj_on snd (set (c_labelMap d))"
    using assms(2) by (simp add: distinct_map)
  then have "inj_on snd (set (c_labelMap d'))"
    using assms(1) by (simp add: sameEntries_def)
  then show ?thesis
    using assms(1) by (simp add: distinct_map sameEntries_def)
qed

lemma exporter_ok_distinct:
  assumes "exporter_ok e"
  shows "distinct (map g_id (gaugeDefs e))" and "distinct (map c_id (counterVecDefs e))"
    and "list_all (\<lambda>d. distinct (map snd (c_labelMap d))) (counterVecDefs e)"
proof -
  let ?sel = "selectDefs (ServerType e)"
  have g: "gaugeDefs e = fst ?sel" and c: "list_all2 sameEntries (snd ?sel) (counterVecDefs e)"
    using assms by (simp_all add: exporter_ok_def)
  show "distinct (map g_id (gaugeDefs e))"
    by (simp only: g selectDefs_distinct)
  have "map c_id (counterVecDefs e) = map c_id (snd ?sel)"
    using c by (induction rule: list_all2_induct) (simp_all add: sameEntries_def)
  then show "distinct (map c_id (counterVecDefs e))"
    by (simp only: selectDefs_distinct)
  have "list_all (\<lambda>d. distinct (map snd (c_labelMap d))) (snd ?sel)"
    by (rule selectDefs_distinct)
  with c show "list_all (\<lambda>d. distinct (map snd (c_labelMap d))) (counterVecDefs e)"
    by (induction rule: list_all2_induct) (simp_all add: sameEntries_distinct)
qed

subsection \<open>Gauges\<close>

lemma setGauge_sets:
  assumes "setGauge sm d e = Inr e'" and "map_of sm (g_key d) = Some v"
  shows "gaugeValue e' (g_id d) = Some (gaugeOf d v)"
  using assms
  by (auto simp: setGauge_def gaugeValue_def gaugeOf_def Gauge_Set_def update_conv' Let_def
      split: option.splits)

lemma setGauge_other:
  assumes "setGauge sm d e = Inr e'" and "g_id d \<noteq> i"
  shows "map_of (gaugeMetrics e') i = map_of (gaugeMetrics e) i"
  using assms
  by (auto simp: setGauge_def update_conv' Let_def split: option.splits)

lemma setGauge_missing:
  assumes "setGauge sm d e = Inr e'" and "map_of sm (g_key d) = None"
  shows "gaugeMetrics e' = gaugeMetrics e"
  using assms by (auto simp: setGauge_def)

lemma gauge_loop_other:
  assumes "forRange (setGauge sm) defs e = Inr e'" and "i \<notin> g_id ` set defs"
  shows "map_of (gaugeMetrics e') i = map_of (gaugeMetrics e) i"
proof (rule forRange_invariant [OF assms(1),
    where P = "\<lambda>t. map_of (gaugeMetrics t) i = map_of (gaugeMetrics e) i"])
  show "map_of (gaugeMetrics e) i = map_of (gaugeMetrics e) i" by simp
next
  fix x t t'
  assume "x \<in> set defs" and t: "map_of (gaugeMetrics t) i = map_of (gaugeMetrics e) i"
    and s: "setGauge sm x t = Inr t'"
  then have "g_id x \<noteq> i" using assms(2) by auto
  from setGauge_other [OF s this] t
  show "map_of (gaugeMetrics t') i = map_of (gaugeMetrics e) i" by simp
qed

lemma gauge_loop_sets:
  assumes "forRange (setGauge sm) defs e = Inr e'" and "distinct (map g_id defs)"
    and "d \<in> set defs" and "map_of sm (g_key d) = Some v"
  shows "gaugeValue e' (g_id d) = Some (gaugeOf d v)"
  using assms
proof (induction defs arbitrary: e)
  case Nil
  then show ?case by simp
next
  case (Cons x defs)
  from Cons.prems(1) obtain t where t: "setGauge sm x e = Inr t"
    and rest: "forRange (setGauge sm) defs t = Inr e'"
    by (auto split: sum.splits)
  show ?case
  proof (cases "d = x")
    case True
    have "g_id d \<notin> g_id ` set defs" using Cons.prems(2) True by auto
    from gauge_loop_other [OF rest this]
    have "gaugeValue e' (g_id d) = gaugeValue t (g_id d)" by (simp add: gaugeValue_def)
    also have "\<dots> = Some (gaugeOf d v)"
      using setGauge_sets [of sm d e t v] t True Cons.prems(4) by simp
    finally show ?thesis .
  next
    case False
    then have "d \<in> set defs" using Cons.prems(3) by simp
    from Cons.IH [OF rest _ this Cons.prems(4)] Cons.prems(2) show ?thesis by simp
  qed
qed

lemma gauge_loop_keeps:
  assumes "forRange (setGauge sm) defs e = Inr e'"
    and "\<forall>d\<in>set defs. g_id d = i \<longrightarrow> map_of sm (g_key d) = None"
  shows "map_of (gaugeMetrics e') i = map_of (gaugeMetrics e) i"
proof (rule forRange_invariant [OF assms(1),
    where P = "\<lambda>t. map_of (gaugeMetrics t) i = map_of (gaugeMetrics e) i"])
  show "map_of (gaugeMetrics e) i = map_of (gaugeMetrics e) i" by simp
next
  fix x t t'
  assume x: "x \<in> set defs" and t: "map_of (gaugeMetrics t) i = map_of (gaugeMetrics e) i"
    and s: "setGauge sm x t = Inr t'"
  show "map_of (gaugeMetrics t') i = map_of (gaugeMetrics e) i"
  proof (cases "g_id x = i")
    case True
    then have "map_of sm (g_key x) = None" using assms(2) x by blast
    from setGauge_missing [OF s this] t show ?thesis by simp
  next
    case False
    from setGauge_other [OF s this] t show ?thesis by simp
  qed
qed

text \<open>The gauges after a cycle on a snapshot that is not empty.\<close>

lemma setMetrics_gauges:
  assumes "setMetrics e js = Inr (sm, e')" and "sm \<noteq> []"
  obtains e1 where "forRange (setGauge sm) (gaugeDefs e) e = Inr e1"
    and "gaugeMetrics e' = gaugeMetrics e1"
  using assms(1)
proof (cases rule: setMetrics_cases)
  case empty
  with assms(2) show ?thesis by simp
next
  case (loops e1)
  from vec_loop_effect [OF loops(3)] have "gaugeMetrics e' = gaugeMetrics e1"
    by (simp add: labelLoopInv_def)
  with loops(2) show ?thesis by (rule that)
qed

lemma scrape_gauges: "gaugeMetrics (fst (scrape e r)) = gaugeMetrics e"
  by (cases r) (simp_all add: scrape_def Let_def)

lemma resetMetrics_gauges: "gaugeMetrics (resetMetrics e) = gaugeMetrics e"
  by (simp add: resetMetrics_def)

text \<open>
  Claim C4. After a cycle of a well formed exporter, a gauge whose source key the
  snapshot holds has the raw value divided by \<open>1000000\<close> when the key ends in
  \<open>latency\<close>, and the raw value itself otherwise.
\<close>

theorem latency_gauge_in_seconds:
  assumes "exporter_ok e" and "d \<in> set (gaugeDefs e)"
    and "map_of (makeStatsMap stats) (g_key d) = Some v"
  shows "\<exists>e' out. Exporter_Collect e (Inr stats) = Inr (e', out)
           \<and> gaugeValue e' (g_id d)
               = Some (if HasSuffix (g_key d) ''latency'' then v / 1000000 else v)"
proof -
  let ?a = "resetMetrics (fst (scrape e (Inr stats)))"
  obtain e' where s: "setMetrics ?a (snd (scrape e (Inr stats))) = Inr (snapshotOf (Inr stats), e')"
    and c: "Exporter_Collect e (Inr stats) =
           Inr (e', [GaugeMetric (up e'), CounterMetric (totalScrapes e'),
                     CounterMetric (jsonParseFailures e')]
                    @ collectMetrics e' (snapshotOf (Inr stats)))"
    using Collect_ok [OF assms(1), of "Inr stats"] by blast
  have sm: "snapshotOf (Inr stats) = makeStatsMap stats" by (simp add: snapshotOf_def)
  have ne: "makeStatsMap stats \<noteq> []" using assms(3) by auto
  have "sameShape e ?a"
    using scrape_shape resetMetrics_shape sameShape_trans by blast
  then have defs: "gaugeDefs ?a = gaugeDefs e" by (simp add: sameShape_def)
  obtain e1 where l: "forRange (setGauge (makeStatsMap stats)) (gaugeDefs e) ?a = Inr e1"
    and g: "gaugeMetrics e' = gaugeMetrics e1"
    using setMetrics_gauges [OF s [unfolded sm] ne] defs by metis
  have "gaugeValue e1 (g_id d) = Some (gaugeOf d v)"
    by (rule gauge_loop_sets [OF l exporter_ok_distinct(1) [OF assms(1)] assms(2,3)])
  then have "gaugeValue e' (g_id d)
               = Some (if HasSuffix (g_key d) ''latency'' then v / 1000000 else v)"
    using g by (simp add: gaugeValue_def gaugeOf_def)
  with c show ?thesis by blast
qed

theorem latency_gauge_in_seconds_witness:
  "exporter_ok (NewExporter ''key'' ''recursor'' ''http://localhost:8001/'')
   \<and> (\<exists>e' out.
         Exporter_Collect (NewExporter ''key'' ''recursor'' ''http://localhost:8001/'')
           (Inr [statsEntry ''qa-latency'' 5000000, statsEntry ''concurrent-queries'' 2])
           = Inr (e', out)
       \<and> gaugeValue e' 1 = Some 5 \<and> gaugeValue e' 2 = Some 2)"
proof -
  let ?e = "NewExporter ''key'' ''recursor'' ''http://localhost:8001/''"
  let ?stats = "[statsEntry ''qa-latency'' 5000000, statsEntry ''concurrent-queries'' 2]"
  let ?d1 = "gaugeDef 1 ''latency_average_seconds''
        ''Exponential moving average of question-to-answer latency.'' ''qa-latency''"
  let ?d2 = "gaugeDef 2 ''concurrent_queries'' ''Number of concurrent queries.''
        ''concurrent-queries''"
  have ok: "exporter_ok ?e" by (rule exporter_ok_NewExporter)
  have defs: "gaugeDefs ?e = recursorGaugeDefs"
    by (simp add: NewExporter_def selectDefs_def)
  have d1: "?d1 \<in> set (gaugeDefs ?e)" and d2: "?d2 \<in> set (gaugeDefs ?e)"
    unfolding defs by (simp_all add: recursorGaugeDefs_def)
  have v1: "map_of (makeStatsMap ?stats) (g_key ?d1) = Some 5000000"
    and v2: "map_of (makeStatsMap ?stats) (g_key ?d2) = Some 2"
    by (simp_all add: makeStatsMap_def statsEntry_def gaugeDef_def)
  from latency_gauge_in_seconds [OF ok d1 v1] latency_gauge_in_seconds [OF ok d2 v2]
  have "\<exists>e' out. Exporter_Collect ?e (Inr ?stats) = Inr (e', out)
       \<and> gaugeValue e' 1 = Some 5 \<and> gaugeValue e' 2 = Some 2"
    by (auto simp: gaugeDef_def HasSuffix_def)
  with ok show ?thesis by blast
qed

subsection \<open>Label values\<close>

lemma setLabel_other_vec:
  assumes "setLabel sm j entry e = Inr e'" and "j \<noteq> i"
  shows "map_of (counterVecMetrics e') i = map_of (counterVecMetrics e) i"
  using assms
  by (auto simp: setLabel_def update_conv' split: option.splits prod.splits)

lemma setLabel_other_label:
  assumes "setLabel sm j entry e = Inr e'" and "snd entry \<noteq> l"
  shows "labelValue e' i l = labelValue e i l"
  using assms
  by (auto simp: setLabel_def labelValue_def update_conv' CounterVec_SetLabel_def
      split: option.splits prod.splits if_splits)

lemma setLabel_sets:
  assumes "setLabel sm i (key, label) e = Inr e'" and "labelValue e i label = None"
  shows "labelValue e' i label = map_of sm key"
  using assms
  by (auto simp: setLabel_def labelValue_def update_conv' CounterVec_SetLabel_def
      split: option.splits)

lemma label_loop_other_vec:
  assumes "forRange (setLabel sm j) entries e = Inr e'" and "j \<noteq> i"
  shows "map_of (counterVecMetrics e') i = map_of (counterVecMetrics e) i"
proof (rule forRange_invariant [OF assms(1),
    where P = "\<lambda>t. map_of (counterVecMetrics t) i = map_of (counterVecMetrics e) i"])
  show "map_of (counterVecMetrics e) i = map_of (counterVecMetrics e) i" by simp
next
  fix x t t'
  assume t: "map_of (counterVecMetrics t) i = map_of (counterVecMetrics e) i"
    and s: "setLabel sm j x t = Inr t'"
  from setLabel_other_vec [OF s assms(2)] t
  show "map_of (counterVecMetrics t') i = map_of (counterVecMetrics e) i" by simp
qed

lemma label_loop_other_label:
  assumes "forRange (setLabel sm j) entries e = Inr e'" and "l \<notin> snd ` set entries"
  shows "labelValue e' i l = labelValue e i l"
proof (rule forRange_invariant [OF assms(1),
    where P = "\<lambda>t. labelValue t i l = labelValue e i l"])
  show "labelValue e i l = labelValue e i l" by simp
next
  fix x t t'
  assume x: "x \<in> set entries" and t: "labelValue t i l = labelValue e i l"
    and s: "setLabel sm j x t = Inr t'"
  have "snd x \<noteq> l" using x assms(2) by auto
  from setLabel_other_label [OF s this] t
  show "labelValue t' i l = labelValue e i l" by simp
qed

lemma label_loop_sets:
  assumes "forRange (setLabel sm i) entries e = Inr e'" and "distinct (map snd entries)"
    and "(key, label) \<in> set entries"
    and "\<forall>l\<in>snd ` set entries. labelValue e i l = None"
  shows "labelValue e' i label = map_of sm key"
  using assms
proof (induction entries arbitrary: e)
  case Nil
  then show ?case by simp
next
  case (Cons x entries)
  from Cons.prems(1) obtain t where t: "setLabel sm i x e = Inr t"
    and rest: "forRange (setLabel sm i) entries t = Inr e'"
    by (auto split: sum.splits)
  show ?case
  proof (cases "x = (key, label)")
    case True
    have "label \<notin> snd ` set entries" using Cons.prems(2) True by force
    from label_loop_other_label [OF rest this]
    have "labelValue e' i label = labelValue t i label" .
    also have "\<dots> = map_of sm key"
      using setLabel_sets [of sm i key label e t] t True Cons.prems(4) by simp
    finally show ?thesis .
  next
    case False
    then have in_rest: "(key, label) \<in> set entries" using Cons.prems(3) by auto
    have "\<forall>l\<in>snd ` set entries. labelValue t i l = None"
    proof
      fix l assume l: "l \<in> snd ` set entries"
      then have "snd x \<noteq> l" using Cons.prems(2) by auto
      have "labelValue e i l = None" using l Cons.prems(4) by auto
      with setLabel_other_label [OF t \<open>snd x \<noteq> l\<close>, of i]
      show "labelValue t i l = None" by simp
    qed
    from Cons.IH [OF rest _ in_rest this] Cons.prems(2) show ?thesis by simp
  qed
qed

lemma vec_loop_other_vec:
  assumes "forRange (setCounterVec sm) cdefs e = Inr e'" and "i \<notin> c_id ` set cdefs"
  shows "map_of (counterVecMetrics e') i = map_of (counterVecMetrics e) i"
proof (rule forRange_invariant [OF assms(1),
    where P = "\<lambda>t. map_of (counterVecMetrics t) i = map_of (counterVecMetrics e) i"])
  show "map_of (counterVecMetrics e) i = map_of (counterVecMetrics e) i" by simp
next
  fix x t t'
  assume x: "x \<in> set cdefs"
    and t: "map_of (counterVecMetrics t) i = map_of (counterVecMetrics e) i"
    and s: "setCounterVec sm x t = Inr t'"
  have "c_id x \<noteq> i" using x assms(2) by auto
  from label_loop_other_vec [OF s [unfolded setCounterVec_def] this] t
  show "map_of (counterVecMetrics t') i = map_of (counterVecMetrics e) i" by simp
qed

lemma labelValue_cong:
  "map_of (counterVecMetrics a) i = map_of (counterVecMetrics b) i \<Longrightarrow>
     labelValue a i l = labelValue b i l"
  by (simp add: labelValue_def)

lemma vec_loop_sets:
  assumes "forRange (setCounterVec sm) cdefs e = Inr e'" and "distinct (map c_id cdefs)"
    and "d \<in> set cdefs" and "distinct (map snd (c_labelMap d))"
    and "(key, label) \<in> set (c_labelMap d)"
    and "\<forall>l. labelValue e (c_id d) l = None"
  shows "labelValue e' (c_id d) label = map_of sm key"
  using assms
proof (induction cdefs arbitrary: e)
  case Nil
  then show ?case by simp
next
  case (Cons x cdefs)
  from Cons.prems(1) obtain t where t0: "setCounterVec sm x e = Inr t"
    and rest: "forRange (setCounterVec sm) cdefs t = Inr e'"
    by (auto split: sum.splits)
  note t = t0 [unfolded setCounterVec_def]
  show ?case
  proof (cases "d = x")
    case True
    have "c_id d \<notin> c_id ` set cdefs" using Cons.prems(2) True by auto
    from vec_loop_other_vec [OF rest this]
    have "labelValue e' (c_id d) label = labelValue t (c_id d) label"
      by (rule labelValue_cong)
    also have "\<dots> = map_of sm key"
      using label_loop_sets [of sm "c_id d" "c_labelMap d" e t key label]
        t True Cons.prems(4,5,6) by simp
    finally show ?thesis .
  next
    case False
    then have in_rest: "d \<in> set cdefs" using Cons.prems(3) by simp
    then have "c_id x \<noteq> c_id d" using Cons.prems(2) by auto
    from label_loop_other_vec [OF t this]
    have "\<forall>l. labelValue t (c_id d) l = None"
      using Cons.prems(6) by (simp add: labelValue_def)
    from Cons.IH [OF rest _ in_rest Cons.prems(4,5) this] Cons.prems(2)
    show ?thesis by simp
  qed
qed

lemma labelValue_reset: "labelValue (resetMetrics e) i l = None"
  by (auto simp: labelValue_def resetMetrics_def CounterVec_Reset_def map_of_map
      split: option.splits)

text \<open>After a cycle every label of the registry holds what the snapshot has under its key.\<close>

lemma setMetrics_labels:
  assumes "setMetrics e js = Inr (sm, e')"
    and "distinct (map c_id (counterVecDefs e))" and "d \<in> set (counterVecDefs e)"
    and "distinct (map snd (c_labelMap d))" and "(key, label) \<in> set (c_labelMap d)"
    and "\<forall>l. labelValue e (c_id d) l = None"
  shows "labelValue e' (c_id d) label = map_of sm key"
  using assms(1)
proof (cases rule: setMetrics_cases)
  case empty
  with assms(6) show ?thesis by simp
next
  case (loops e1)
  have "counterVecMetrics e1 = counterVecMetrics e"
    using gauge_loop_effect [OF loops(2)] by (simp add: gaugeLoopInv_def)
  then have "\<forall>l. labelValue e1 (c_id d) l = None"
    using assms(6) by (simp add: labelValue_def)
  from vec_loop_sets [OF loops(3) assms(2,3,4,5) this] show ?thesis .
qed

section \<open>Reset and repopulate\<close>

lemma resetVecs_idem: "resetVecs (resetVecs cvs) = resetVecs cvs"
  by (induction cvs) (auto simp: resetVecs_def CounterVec_Reset_def)

lemma resetVecs_update:
  assumes "map_of cvs i = Some m"
  shows "resetVecs (AList.update i (CounterVec_SetLabel lv v m) cvs) = resetVecs cvs"
  using assms
  by (induction cvs)
    (auto simp: resetVecs_def CounterVec_Reset_def CounterVec_SetLabel_def split: if_splits)

lemma setLabel_resetVecs:
  assumes "setLabel sm i entry e = Inr e'"
  shows "resetVecs (counterVecMetrics e') = resetVecs (counterVecMetrics e)"
  using assms
  by (auto simp: setLabel_def resetVecs_update split: option.splits prod.splits)

lemma label_loop_resetVecs:
  assumes "forRange (setLabel sm i) entries e = Inr e'"
  shows "resetVecs (counterVecMetrics e') = resetVecs (counterVecMetrics e)"
  by (rule forRange_invariant [OF assms,
        where P = "\<lambda>t. resetVecs (counterVecMetrics t) = resetVecs (counterVecMetrics e)"])
    (simp_all add: setLabel_resetVecs)

lemma vec_loop_resetVecs:
  assumes "forRange (setCounterVec sm) cdefs e = Inr e'"
  shows "resetVecs (counterVecMetrics e') = resetVecs (counterVecMetrics e)"
  by (rule forRange_invariant [OF assms,
        where P = "\<lambda>t. resetVecs (counterVecMetrics t) = resetVecs (counterVecMetrics e)"])
    (simp_all add: setCounterVec_def label_loop_resetVecs)

lemma setMetrics_resetVecs:
  assumes "setMetrics e js = Inr (sm, e')"
  shows "resetVecs (counterVecMetrics e') = resetVecs (counterVecMetrics e)"
  using assms
proof (cases rule: setMetrics_cases)
  case empty
  then show ?thesis by simp
next
  case (loops e1)
  have "counterVecMetrics e1 = counterVecMetrics e"
    using gauge_loop_effect [OF loops(2)] by (simp add: gaugeLoopInv_def)
  with vec_loop_resetVecs [OF loops(3)] show ?thesis by simp
qed

text \<open>The counter vectors after the loops are a function of those before them.\<close>

lemma setLabel_determined:
  assumes "setLabel sm i entry a = Inr a'" and "setLabel sm i entry b = Inr b'"
    and "counterVecMetrics a = counterVecMetrics b"
  shows "counterVecMetrics a' = counterVecMetrics b'"
  using assms by (auto simp: setLabel_def split: option.splits prod.splits)

lemma label_loop_determined:
  assumes "forRange (setLabel sm i) entries a = Inr a'"
    and "forRange (setLabel sm i) entries b = Inr b'"
    and "counterVecMetrics a = counterVecMetrics b"
  shows "counterVecMetrics a' = counterVecMetrics b'"
proof (rule forRange_related [OF assms(1,2),
        where R = "\<lambda>s t. counterVecMetrics s = counterVecMetrics t"])
  show "counterVecMetrics a = counterVecMetrics b" by (rule assms(3))
next
  fix x s s' t t'
  assume "counterVecMetrics s = counterVecMetrics t"
    and "setLabel sm i x s = Inr s'" and "setLabel sm i x t = Inr t'"
  then show "counterVecMetrics s' = counterVecMetrics t'"
    by (rule setLabel_determined [rotated 2])
qed

lemma vec_loop_determined:
  assumes "forRange (setCounterVec sm) cdefs a = Inr a'"
    and "forRange (setCounterVec sm) cdefs b = Inr b'"
    and "counterVecMetrics a = counterVecMetrics b"
  shows "counterVecMetrics a' = counterVecMetrics b'"
proof (rule forRange_related [OF assms(1,2),
        where R = "\<lambda>s t. counterVecMetrics s = counterVecMetrics t"])
  show "counterVecMetrics a = counterVecMetrics b" by (rule assms(3))
next
  fix x s s' t t'
  assume "counterVecMetrics s = counterVecMetrics t"
    and "setCounterVec sm x s = Inr s'" and "setCounterVec sm x t = Inr t'"
  then show "counterVecMetrics s' = counterVecMetrics t'"
    unfolding setCounterVec_def by (rule label_loop_determined [rotated 2])
qed

lemma setMetrics_determined:
  assumes "setMetrics a js = Inr (sm, a')" and "setMetrics b js = Inr (sm', b')"
    and "counterVecMetrics a = counterVecMetrics b" and "counterVecDefs a = counterVecDefs b"
  shows "counterVecMetrics a' = counterVecMetrics b'"
proof -
  have sm: "sm = makeStatsMap (case js of None \<Rightarrow> [] | Some d \<Rightarrow> d)"
    "sm' = makeStatsMap (case js of None \<Rightarrow> [] | Some d \<Rightarrow> d)"
    using assms(1,2) by (auto simp: setMetrics_def Let_def split: if_splits sum.splits)
  show ?thesis
    using assms(1)
  proof (cases rule: setMetrics_cases)
    case empty
    then have "sm' = []" using sm by simp
    have "b' = b" using assms(2)
    proof (cases rule: setMetrics_cases)
      case empty
      then show ?thesis by simp
    next
      case (loops b1)
      with \<open>sm' = []\<close> show ?thesis by simp
    qed
    with empty assms(3) show ?thesis by simp
  next
    case (loops a1)
    then have "sm' \<noteq> []" using sm by simp
    have "\<exists>b1. forRange (setGauge sm') (gaugeDefs b) b = Inr b1
            \<and> forRange (setCounterVec sm') (counterVecDefs b) b1 = Inr b'"
      using assms(2)
    proof (cases rule: setMetrics_cases)
      case empty
      with \<open>sm' \<noteq> []\<close> show ?thesis by simp
    next
      case (loops b1)
      then show ?thesis by blast
    qed
    then obtain b1 where b1: "forRange (setGauge sm') (gaugeDefs b) b = Inr b1"
      and b2: "forRange (setCounterVec sm') (counterVecDefs b) b1 = Inr b'"
      by blast
    have "counterVecMetrics a1 = counterVecMetrics b1"
      using gauge_loop_effect [OF loops(2)] gauge_loop_effect [OF b1] assms(3)
      by (simp add: gaugeLoopInv_def)
    then show ?thesis
      using vec_loop_determined [of sm "counterVecDefs a" a1 a' b1 b'] loops(3) b2 sm assms(4)
      by simp
  qed
qed

lemma scrape_vecs: "counterVecMetrics (fst (scrape e r)) = counterVecMetrics e"
  by (cases r) (simp_all add: scrape_def Let_def)

lemma resetMetrics_vecs: "counterVecMetrics (resetMetrics e) = resetVecs (counterVecMetrics e)"
  by (simp add: resetMetrics_def resetVecs_def)

text \<open>
  Claim C5. Two cycles in a row on the same fetched entries leave the same counter
  vectors, children and values; and after each of them every label of the registry
  holds what the snapshot has under its source key (no child when the key is absent):
  the values are set from the snapshot, not added up.
\<close>

theorem Collect_twice_same_labels:
  assumes "exporter_ok e"
  shows "\<exists>e1 out1 e2 out2.
           Exporter_Collect e (Inr stats) = Inr (e1, out1)
         \<and> Exporter_Collect e1 (Inr stats) = Inr (e2, out2)
         \<and> counterVecMetrics e2 = counterVecMetrics e1
         \<and> (\<forall>d\<in>set (counterVecDefs e). \<forall>en\<in>set (c_labelMap d).
               labelValue e1 (c_id d) (snd en) = map_of (makeStatsMap stats) (fst en)
             \<and> labelValue e2 (c_id d) (snd en) = map_of (makeStatsMap stats) (fst en))"
proof -
  let ?r = "Inr stats :: error + StatsEntry list"
  obtain e1 where s1: "setMetrics (resetMetrics (fst (scrape e ?r))) (snd (scrape e ?r))
                        = Inr (snapshotOf ?r, e1)"
    and c1: "Exporter_Collect e ?r =
           Inr (e1, [GaugeMetric (up e1), CounterMetric (totalScrapes e1),
                     CounterMetric (jsonParseFailures e1)] @ collectMetrics e1 (snapshotOf ?r))"
    and sh1: "sameShape e e1" and ok1: "exporter_ok e1"
    using Collect_ok [OF assms, of ?r] by blast
  obtain e2 where s2: "setMetrics (resetMetrics (fst (scrape e1 ?r))) (snd (scrape e1 ?r))
                        = Inr (snapshotOf ?r, e2)"
    and c2: "Exporter_Collect e1 ?r =
           Inr (e2, [GaugeMetric (up e2), CounterMetric (totalScrapes e2),
                     CounterMetric (jsonParseFailures e2)] @ collectMetrics e2 (snapshotOf ?r))"
    using Collect_ok [OF ok1, of ?r] by blast
  let ?a = "resetMetrics (fst (scrape e ?r))" and ?b = "resetMetrics (fst (scrape e1 ?r))"
  have "resetVecs (counterVecMetrics e1) = resetVecs (counterVecMetrics ?a)"
    by (rule setMetrics_resetVecs [OF s1])
  then have vecs: "counterVecMetrics ?a = counterVecMetrics ?b"
    by (simp add: resetMetrics_vecs scrape_vecs resetVecs_idem)
  have sha: "sameShape e ?a" and "sameShape e1 ?b"
    using scrape_shape resetMetrics_shape sameShape_trans by blast+
  then have defs: "counterVecDefs ?a = counterVecDefs ?b"
    and defa: "counterVecDefs ?a = counterVecDefs e"
    using sh1 by (simp_all add: sameShape_def)
  have js: "snd (scrape e1 ?r) = snd (scrape e ?r)"
    by (simp add: scrape_snd)
  have s2': "setMetrics ?b (snd (scrape e ?r)) = Inr (snapshotOf ?r, e2)"
    using s2 by (simp only: js)
  have eq: "counterVecMetrics e2 = counterVecMetrics e1"
    by (rule setMetrics_determined [OF s1 s2' vecs defs, symmetric])
  have sm: "snapshotOf ?r = makeStatsMap stats" by (simp add: snapshotOf_def)
  have oka: "exporter_ok ?a" using sha assms by (rule sameShape_ok)
  have lab: "labelValue e1 (c_id d) (snd en) = map_of (makeStatsMap stats) (fst en)"
    if d: "d \<in> set (counterVecDefs e)" and en: "en \<in> set (c_labelMap d)" for d en
  proof -
    have "distinct (map snd (c_labelMap d))"
      using exporter_ok_distinct(3) [OF assms] d by (simp add: list_all_iff)
    moreover have "(fst en, snd en) \<in> set (c_labelMap d)" using en by simp
    moreover have "d \<in> set (counterVecDefs ?a)" using d defa by simp
    ultimately show ?thesis
      using setMetrics_labels [OF s1 exporter_ok_distinct(2) [OF oka], of d "fst en" "snd en"]
      by (simp add: labelValue_reset sm)
  qed
  have "\<forall>d\<in>set (counterVecDefs e). \<forall>en\<in>set (c_labelMap d).
               labelValue e1 (c_id d) (snd en) = map_of (makeStatsMap stats) (fst en)
             \<and> labelValue e2 (c_id d) (snd en) = map_of (makeStatsMap stats) (fst en)"
    using lab eq by (simp add: labelValue_def)
  with c1 c2 eq show ?thesis by (intro exI conjI)
qed

theorem Collect_twice_same_labels_witness:
  "exporter_ok (NewExporter ''key'' ''recursor'' ''http://localhost:8001/'')
   \<and> (\<exists>e1 out1 e2 out2.
         Exporter_Collect (NewExporter ''key'' ''recursor'' ''http://localhost:8001/'')
           (Inr [statsEntry ''questions'' 10, statsEntry ''tcp-questions'' 2]) = Inr (e1, out1)
       \<and> Exporter_Collect e1
           (Inr [statsEntry ''questions'' 10, statsEntry ''tcp-questions'' 2]) = Inr (e2, out2)
       \<and> counterVecMetrics e2 = counterVecMetrics e1
       \<and> labelValue e1 1 ''udp'' = Some 10 \<and> labelValue e2 1 ''udp'' = Some 10
       \<and> labelValue e1 1 ''tcp'' = Some 2 \<and> labelValue e2 1 ''tcp'' = Some 2
       \<and> labelValue e1 3 ''hit'' = None \<and> labelValue e2 3 ''hit'' = None)"
proof -
  let ?e = "NewExporter ''key'' ''recursor'' ''http://localhost:8001/''"
  let ?stats = "[statsEntry ''questions'' 10, statsEntry ''tcp-questions'' 2]"
  have ok: "exporter_ok ?e" by (rule exporter_ok_NewExporter)
  have defs: "counterVecDefs ?e = recursorCounterVecDefs"
    by (simp add: NewExporter_def selectDefs_def)
  have sm: "makeStatsMap ?stats = [(''questions'', 10), (''tcp-questions'', 2)]"
    by (simp add: makeStatsMap_def statsEntry_def)
  from Collect_twice_same_labels [OF ok, of ?stats]
  obtain e1 out1 e2 out2 where c: "Exporter_Collect ?e (Inr ?stats) = Inr (e1, out1)"
      "Exporter_Collect e1 (Inr ?stats) = Inr (e2, out2)"
      "counterVecMetrics e2 = counterVecMetrics e1"
    and l: "\<forall>d\<in>set (counterVecDefs ?e). \<forall>en\<in>set (c_labelMap d).
               labelValue e1 (c_id d) (snd en) = map_of (makeStatsMap ?stats) (fst en)
             \<and> labelValue e2 (c_id d) (snd en) = map_of (makeStatsMap ?stats) (fst en)"
    by blast
  from l have "labelValue e1 1 ''udp'' = Some 10 \<and> labelValue e2 1 ''udp'' = Some 10
       \<and> labelValue e1 1 ''tcp'' = Some 2 \<and> labelValue e2 1 ''tcp'' = Some 2
       \<and> labelValue e1 3 ''hit'' = None \<and> labelValue e2 3 ''hit'' = None"
    unfolding defs sm by (simp add: recursorCounterVecDefs_def counterVecDef_def)
  with c ok show ?thesis by blast
qed

section \<open>A snapshot without one raw key\<close>

subsection \<open>The snapshot\<close>

lemma fold_update_removeKey:
  assumes "\<forall>n. n \<noteq> k \<longrightarrow> map_of m' n = map_of m n" and "map_of m' k = None"
  shows "map_of (fold (\<lambda>s m. AList.update (Name s) (Value s) m) (removeKey k stats) m') n
       = (if n = k then None
          else map_of (fold (\<lambda>s m. AList.update (Name s) (Value s) m) stats m) n)"
  using assms
proof (induction stats arbitrary: m m')
  case Nil
  then show ?case by (simp add: removeKey_def)
next
  case (Cons s stats)
  show ?case
  proof (cases "Name s = k")
    case True
    have "\<forall>n. n \<noteq> k \<longrightarrow> map_of m' n = map_of (AList.update (Name s) (Value s) m) n"
      using Cons.prems(1) True by (simp add: update_conv')
    from Cons.IH [OF this Cons.prems(2)] True show ?thesis
      by (simp add: removeKey_def)
  next
    case False
    have 1: "\<forall>n. n \<noteq> k \<longrightarrow> map_of (AList.update (Name s) (Value s) m') n
                = map_of (AList.update (Name s) (Value s) m) n"
      using Cons.prems(1) by (simp add: update_conv')
    have 2: "map_of (AList.update (Name s) (Value s) m') k = None"
      using Cons.prems(2) False by (simp add: update_conv')
    from Cons.IH [OF 1 2] False show ?thesis
      by (simp add: removeKey_def)
  qed
qed

lemma makeStatsMap_removeKey:
  "map_of (makeStatsMap (removeKey k stats)) n
     = (if n = k then None else map_of (makeStatsMap stats) n)"
  unfolding makeStatsMap_def by (rule fold_update_removeKey) simp_all

lemma makeStatsMap_present:
  "n \<in> Name ` set stats \<Longrightarrow> map_of (makeStatsMap stats) n \<noteq> None"
  by (simp add: map_of_eq_None_iff makeStatsMap_keys)

subsection \<open>Counting the failures\<close>

lemma setGauge_failures:
  "setGauge sm d e = Inr e' \<Longrightarrow> failures e' = failures e + missing sm (g_key d)"
  by (auto simp: setGauge_def failures_def missing_def Counter_Inc_def Let_def
      split: option.splits)

lemma setLabel_failures:
  "setLabel sm i en e = Inr e' \<Longrightarrow> failures e' = failures e + missing sm (fst en)"
  by (auto simp: setLabel_def failures_def missing_def Counter_Inc_def
      split: option.splits prod.splits)

lemma gauge_loop_failures:
  assumes "forRange (setGauge sm) defs e = Inr e'"
  shows "failures e' = failures e + sum_list (map (missing sm) (map g_key defs))"
  using forRange_count [OF assms, where m = failures and c = "\<lambda>d. missing sm (g_key d)"]
  by (simp add: setGauge_failures comp_def)

lemma label_loop_failures:
  assumes "forRange (setLabel sm i) entries e = Inr e'"
  shows "failures e' = failures e + sum_list (map (missing sm) (map fst entries))"
  using forRange_count [OF assms, where m = failures and c = "\<lambda>en. missing sm (fst en)"]
  by (simp add: setLabel_failures comp_def)

lemma vec_loop_failures:
  assumes "forRange (setCounterVec sm) cdefs e = Inr e'"
  shows "failures e' = failures e
           + sum_list (map (missing sm) (concat (map (\<lambda>d. map fst (c_labelMap d)) cdefs)))"
proof -
  have "failures e' = failures e
          + sum_list (map (\<lambda>d. sum_list (map (missing sm) (map fst (c_labelMap d)))) cdefs)"
    by (rule forRange_count [OF assms]) (simp add: setCounterVec_def label_loop_failures)
  also have "sum_list (map (\<lambda>d. sum_list (map (missing sm) (map fst (c_labelMap d)))) cdefs)
      = sum_list (map (missing sm) (concat (map (\<lambda>d. map fst (c_labelMap d)) cdefs)))"
    by (induction cdefs) simp_all
  finally show ?thesis .
qed

lemma setMetrics_failures:
  assumes "setMetrics e js = Inr (sm, e')" and "sm \<noteq> []"
  shows "failures e' = failures e + sum_list (map (missing sm) (registryKeys e))"
  using assms(1)
proof (cases rule: setMetrics_cases)
  case empty
  with assms(2) show ?thesis by simp
next
  case (loops e1)
  from gauge_loop_failures [OF loops(2)] vec_loop_failures [OF loops(3)]
  show ?thesis by (simp add: registryKeys_def)
qed

lemma sum_missing_none:
  assumes "\<forall>key\<in>set keys. map_of sm key \<noteq> None"
  shows "sum_list (map (missing sm) keys) = 0"
  using assms by (induction keys) (auto simp: missing_def)

lemma sum_missing_count:
  assumes "\<forall>key\<in>set keys. (map_of sm key = None) = (key = k)"
  shows "sum_list (map (missing sm) keys) = real (count_list keys k)"
  using assms by (induction keys) (auto simp: missing_def)

subsection \<open>Two runs side by side\<close>

lemma gauge_loops_agree:
  assumes S: "forRange (setGauge smS) defs a = Inr aS"
    and K: "forRange (setGauge smK) defs b = Inr aK"
    and start: "gaugeMetrics a = gaugeMetrics b"
    and other: "\<forall>d\<in>set defs. g_key d \<noteq> k \<longrightarrow> map_of smK (g_key d) = map_of smS (g_key d)"
    and miss: "map_of smK k = None"
    and i: "\<not> list_ex (\<lambda>d. g_id d = i \<and> g_key d = k) defs"
  shows "map_of (gaugeMetrics aK) i = map_of (gaugeMetrics aS) i"
proof (rule forRange_related [OF K S,
    where R = "\<lambda>s t. map_of (gaugeMetrics s) i = map_of (gaugeMetrics t) i"])
  show "map_of (gaugeMetrics b) i = map_of (gaugeMetrics a) i" using start by simp
next
  fix x s s' t t'
  assume x: "x \<in> set defs" and r: "map_of (gaugeMetrics s) i = map_of (gaugeMetrics t) i"
    and s: "setGauge smK x s = Inr s'" and t: "setGauge smS x t = Inr t'"
  show "map_of (gaugeMetrics s') i = map_of (gaugeMetrics t') i"
  proof (cases "g_id x = i")
    case False
    from setGauge_other [OF s False] setGauge_other [OF t False] r show ?thesis by simp
  next
    case True
    then have "g_key x \<noteq> k" using i x by (auto simp: list_ex_iff)
    then have "map_of smK (g_key x) = map_of smS (g_key x)" using other x by blast
    with s t r True show ?thesis
      by (auto simp: setGauge_def update_conv' Let_def split: option.splits)
  qed
qed

lemma setLabel_agree:
  assumes s: "setLabel smK j en s = Inr s'" and t: "setLabel smS j en t = Inr t'"
    and r: "labelValue s i l = labelValue t i l"
    and same: "map_of smK (fst en) = map_of smS (fst en) \<or> \<not> (j = i \<and> snd en = l)"
  shows "labelValue s' i l = labelValue t' i l"
proof (cases "j = i \<and> snd en = l")
  case True
  then have "map_of smK (fst en) = map_of smS (fst en)" using same by blast
  with s t r True show ?thesis
    by (auto simp: setLabel_def labelValue_def update_conv' CounterVec_SetLabel_def
        split: option.splits prod.splits)
next
  case False
  show ?thesis
  proof (cases "j = i")
    case True
    with False have "snd en \<noteq> l" by simp
    from setLabel_other_label [OF s this] setLabel_other_label [OF t this] r
    show ?thesis by simp
  next
    case False
    from setLabel_other_vec [OF s False] setLabel_other_vec [OF t False] r
    show ?thesis by (simp add: labelValue_def)
  qed
qed

lemma vec_loops_agree:
  assumes S: "forRange (setCounterVec smS) cdefs a = Inr aS"
    and K: "forRange (setCounterVec smK) cdefs b = Inr aK"
    and start: "counterVecMetrics a = counterVecMetrics b"
    and other: "\<forall>d\<in>set cdefs. \<forall>en\<in>set (c_labelMap d).
                  fst en \<noteq> k \<longrightarrow> map_of smK (fst en) = map_of smS (fst en)"
    and il: "\<not> list_ex (\<lambda>d. c_id d = i
                  \<and> list_ex (\<lambda>en. snd en = l \<and> fst en = k) (c_labelMap d)) cdefs"
  shows "labelValue aK i l = labelValue aS i l"
proof (rule forRange_related [OF K S, where R = "\<lambda>s t. labelValue s i l = labelValue t i l"])
  show "labelValue b i l = labelValue a i l" using start by (simp add: labelValue_def)
next
  fix x s s' t t'
  assume x: "x \<in> set cdefs" and r: "labelValue s i l = labelValue t i l"
    and s: "setCounterVec smK x s = Inr s'" and t: "setCounterVec smS x t = Inr t'"
  show "labelValue s' i l = labelValue t' i l"
  proof (rule forRange_related [OF s [unfolded setCounterVec_def] t [unfolded setCounterVec_def],
      where R = "\<lambda>s t. labelValue s i l = labelValue t i l"])
    show "labelValue s i l = labelValue t i l" by (rule r)
  next
    fix en u u' v v'
    assume en: "en \<in> set (c_labelMap x)" and r': "labelValue u i l = labelValue v i l"
      and u: "setLabel smK (c_id x) en u = Inr u'" and v: "setLabel smS (c_id x) en v = Inr v'"
    have "map_of smK (fst en) = map_of smS (fst en) \<or> \<not> (c_id x = i \<and> snd en = l)"
    proof (cases "fst en = k")
      case True
      then have "\<not> (c_id x = i \<and> snd en = l)"
        using il x en by (auto simp: list_ex_iff)
      then show ?thesis by simp
    next
      case False
      then show ?thesis using other x en by blast
    qed
    from setLabel_agree [OF u v r' this]
    show "labelValue u' i l = labelValue v' i l" .
  qed
qed

subsection \<open>The registries have two keys or none\<close>

lemma registry_two_keys:
  assumes "exporter_ok e"
  shows "(gaugeDefs e = [] \<and> counterVecDefs e = [])
       \<or> (\<exists>a b. a \<noteq> b \<and> a \<in> set (registryKeys e) \<and> b \<in> set (registryKeys e))"
proof -
  have d: "gaugeDefs e = fst (selectDefs (ServerType e))"
    and c: "list_all2 sameEntries (snd (selectDefs (ServerType e))) (counterVecDefs e)"
    using assms by (simp_all add: exporter_ok_def)
  show ?thesis
  proof (cases "ServerType e" rule: selectDefs_cases)
    case 1
    from d [unfolded 1] have "gaugeDefs e = recursorGaugeDefs" by simp
    then have "map g_key (gaugeDefs e) = [''qa-latency'', ''concurrent-queries'', ''cache-entries'']"
      by (simp add: recursorGaugeDefs_def gaugeDef_def)
    then have "''qa-latency'' \<noteq> ''concurrent-queries''
        \<and> ''qa-latency'' \<in> set (registryKeys e) \<and> ''concurrent-queries'' \<in> set (registryKeys e)"
      by (simp add: registryKeys_def)
    then show ?thesis by (intro disjI2 exI)
  next
    case 2
    from d [unfolded 2] have "gaugeDefs e = authoritativeGaugeDefs" by simp
    then have "map g_key (gaugeDefs e) = [''latency'', ''packetcache-size'',
        ''signature-cache-size'', ''key-cache-size'', ''meta-cache-size'', ''qsize-q'']"
      by (simp add: authoritativeGaugeDefs_def gaugeDef_def)
    then have "''latency'' \<noteq> ''packetcache-size''
        \<and> ''latency'' \<in> set (registryKeys e) \<and> ''packetcache-size'' \<in> set (registryKeys e)"
      by (simp add: registryKeys_def)
    then show ?thesis by (intro disjI2 exI)
  next
    case 3
    from d [unfolded 3] c [unfolded 3] show ?thesis by simp
  qed
qed

lemma setMetrics_no_defs:
  assumes "setMetrics e js = Inr (sm, e')" and "gaugeDefs e = []" and "counterVecDefs e = []"
  shows "e' = e"
  using assms by (auto simp: setMetrics_def Let_def split: if_splits)

lemma scrape_success_fst:
  "fst (scrape e (Inr stats)) = fst (scrape e (Inr stats'))"
  by (simp add: scrape_def Let_def)

lemma scrape_success_failures:
  "jsonParseFailures (resetMetrics (fst (scrape e (Inr stats)))) = jsonParseFailures e"
  by (simp add: scrape_def Let_def resetMetrics_def)

lemma registryKeys_shape: "sameShape e e' \<Longrightarrow> registryKeys e' = registryKeys e"
  by (simp add: sameShape_def registryKeys_def)

lemma rTimeLoop_cong:
  assumes "\<forall>key\<in>fst ` set bm. map_of sm key = map_of sm' key"
  shows "rTimeLoop bm sm acc = rTimeLoop bm sm' acc"
  using assms
proof (induction bm sm acc rule: rTimeLoop.induct)
  case (1 statsMap acc)
  then show ?case by simp
next
  case (2 key v rest statsMap buckets count)
  have eq: "map_of statsMap key = map_of sm' key" using "2.prems" by simp
  show ?case
  proof (cases "map_of sm' key")
    case None
    with eq show ?thesis by simp
  next
    case (Some val)
    with eq have "map_of statsMap key = Some val" by simp
    from "2.IH" [OF this] "2.prems" Some this show ?thesis by simp
  qed
qed

lemma makeRecursorRTimeHistogram_removeKey:
  assumes "k \<notin> fst ` set rTimeBucketMap"
  shows "makeRecursorRTimeHistogram (makeStatsMap (removeKey k stats))
       = makeRecursorRTimeHistogram (makeStatsMap stats)"
proof -
  have "\<forall>key\<in>fst ` set rTimeBucketMap.
          map_of (makeStatsMap (removeKey k stats)) key = map_of (makeStatsMap stats) key"
    using assms by (auto simp: makeStatsMap_removeKey)
  from rTimeLoop_cong [OF this] show ?thesis
    by (simp add: makeRecursorRTimeHistogram_def)
qed

text \<open>
  Claim C3. Let the fetched entries hold every key of the registry of a well formed
  exporter, and take the raw key \<open>k\<close> out of them. Both cycles return. The cycle on
  the full entries counts no parse failure; the cycle without \<open>k\<close> counts one for
  each gauge definition and each label entry that refers to \<open>k\<close>. The health gauge,
  the scrape counter, every gauge that no definition derives from \<open>k\<close> and every label
  value that no entry derives from \<open>k\<close> are the same after both cycles, and so is the
  outcome of the histogram when \<open>k\<close> is none of its keys.
\<close>

theorem missing_key_fail_soft:
  assumes "exporter_ok e" and "set (registryKeys e) \<subseteq> Name ` set stats"
  shows "\<exists>eS outS eK outK.
           Exporter_Collect e (Inr stats) = Inr (eS, outS)
         \<and> Exporter_Collect e (Inr (removeKey k stats)) = Inr (eK, outK)
         \<and> counter_value (jsonParseFailures eS) = counter_value (jsonParseFailures e)
         \<and> counter_value (jsonParseFailures eK)
             = counter_value (jsonParseFailures eS) + real (references e k)
         \<and> up eK = up eS \<and> totalScrapes eK = totalScrapes eS
         \<and> (\<forall>i. \<not> gaugeDerivedFrom e k i
                \<longrightarrow> map_of (gaugeMetrics eK) i = map_of (gaugeMetrics eS) i)
         \<and> (\<forall>i l. \<not> labelDerivedFrom e k i l \<longrightarrow> labelValue eK i l = labelValue eS i l)
         \<and> (k \<notin> fst ` set rTimeBucketMap
              \<longrightarrow> makeRecursorRTimeHistogram (makeStatsMap (removeKey k stats))
                    = makeRecursorRTimeHistogram (makeStatsMap stats))"
proof -
  define a where "a = resetMetrics (fst (scrape e (Inr stats)))"
  define smS where "smS = makeStatsMap stats"
  define smK where "smK = makeStatsMap (removeKey k stats)"
  have aK: "resetMetrics (fst (scrape e (Inr (removeKey k stats)))) = a"
    unfolding a_def by (simp add: scrape_success_fst [of e "removeKey k stats" stats])
  obtain eS where sS: "setMetrics a (Some stats) = Inr (smS, eS)"
    and cS: "Exporter_Collect e (Inr stats) =
           Inr (eS, [GaugeMetric (up eS), CounterMetric (totalScrapes eS),
                     CounterMetric (jsonParseFailures eS)]
                    @ collectMetrics eS (snapshotOf (Inr stats)))"
    using Collect_ok [OF assms(1), of "Inr stats"]
    by (auto simp: a_def smS_def snapshotOf_def scrape_snd)
  obtain eK where sK: "setMetrics a (Some (removeKey k stats)) = Inr (smK, eK)"
    and cK: "Exporter_Collect e (Inr (removeKey k stats)) =
           Inr (eK, [GaugeMetric (up eK), CounterMetric (totalScrapes eK),
                     CounterMetric (jsonParseFailures eK)]
                    @ collectMetrics eK (snapshotOf (Inr (removeKey k stats))))"
    using Collect_ok [OF assms(1), of "Inr (removeKey k stats)"]
    by (auto simp: aK smK_def snapshotOf_def scrape_snd)
  have sh: "sameShape e a"
    unfolding a_def using scrape_shape resetMetrics_shape sameShape_trans by blast
  then have gd: "gaugeDefs a = gaugeDefs e" and cd: "counterVecDefs a = counterVecDefs e"
    by (simp_all add: sameShape_def)
  have keys: "registryKeys a = registryKeys e" by (rule registryKeys_shape [OF sh])
  have fa: "failures a = failures e"
    by (simp add: failures_def a_def scrape_success_failures)
  have ups: "up eK = up eS" and scr: "totalScrapes eK = totalScrapes eS"
    using setMetrics_effect(2,3) [OF sS] setMetrics_effect(2,3) [OF sK] by simp_all
  have present: "\<forall>key\<in>set (registryKeys e). map_of smS key \<noteq> None"
    using assms(2) makeStatsMap_present unfolding smS_def by blast
  have removed: "map_of smK n = (if n = k then None else map_of smS n)" for n
    by (simp add: smS_def smK_def makeStatsMap_removeKey)
  have main: "failures eS = failures e \<and> failures eK = failures eS + real (references e k)
      \<and> (\<forall>i. \<not> gaugeDerivedFrom e k i
                \<longrightarrow> map_of (gaugeMetrics eK) i = map_of (gaugeMetrics eS) i)
      \<and> (\<forall>i l. \<not> labelDerivedFrom e k i l \<longrightarrow> labelValue eK i l = labelValue eS i l)"
  proof (cases "gaugeDefs e = [] \<and> counterVecDefs e = []")
    case True
    then have "eS = a" and "eK = a"
      using setMetrics_no_defs [OF sS] setMetrics_no_defs [OF sK] gd cd by simp_all
    moreover have "references e k = 0"
      using True by (simp add: references_def registryKeys_def)
    ultimately show ?thesis using fa by simp
  next
    case False
    then obtain x y where xy: "x \<noteq> y" "x \<in> set (registryKeys e)" "y \<in> set (registryKeys e)"
      using registry_two_keys [OF assms(1)] by blast
    then obtain z where z: "z \<noteq> k" "z \<in> set (registryKeys e)" by metis
    then have "map_of smK z \<noteq> None" using present removed by simp
    then have neK: "smK \<noteq> []" by auto
    have "map_of smS z \<noteq> None" using present z by simp
    then have neS: "smS \<noteq> []" by auto
    have "sum_list (map (missing smS) (registryKeys e)) = 0"
      by (rule sum_missing_none [OF present])
    then have fS: "failures eS = failures e"
      using setMetrics_failures [OF sS neS] keys fa by simp
    have "\<forall>key\<in>set (registryKeys e). (map_of smK key = None) = (key = k)"
      using present removed by simp
    then have "sum_list (map (missing smK) (registryKeys e)) = real (count_list (registryKeys e) k)"
      by (rule sum_missing_count)
    then have fK: "failures eK = failures eS + real (references e k)"
      using setMetrics_failures [OF sK neK] keys fa fS by (simp add: references_def)
    obtain e1S where gS: "forRange (setGauge smS) (gaugeDefs e) a = Inr e1S"
      and vS: "forRange (setCounterVec smS) (counterVecDefs e) e1S = Inr eS"
      using sS neS gd cd by (cases rule: setMetrics_cases) simp_all
    obtain e1K where gK: "forRange (setGauge smK) (gaugeDefs e) a = Inr e1K"
      and vK: "forRange (setCounterVec smK) (counterVecDefs e) e1K = Inr eK"
      using sK neK gd cd by (cases rule: setMetrics_cases) simp_all
    have gmS: "gaugeMetrics eS = gaugeMetrics e1S" and gmK: "gaugeMetrics eK = gaugeMetrics e1K"
      using vec_loop_effect [OF vS] vec_loop_effect [OF vK] by (simp_all add: labelLoopInv_def)
    have cv: "counterVecMetrics e1S = counterVecMetrics e1K"
      using gauge_loop_effect [OF gS] gauge_loop_effect [OF gK] by (simp add: gaugeLoopInv_def)
    have g: "map_of (gaugeMetrics eK) i = map_of (gaugeMetrics eS) i"
      if "\<not> gaugeDerivedFrom e k i" for i
      unfolding gmS gmK
      by (rule gauge_loops_agree [OF gS gK refl, where k = k])
        (use that removed in \<open>simp_all add: gaugeDerivedFrom_def\<close>)
    have l: "labelValue eK i l = labelValue eS i l" if "\<not> labelDerivedFrom e k i l" for i l
      by (rule vec_loops_agree [OF vS vK cv, where k = k])
        (use that removed in \<open>simp_all add: labelDerivedFrom_def\<close>)
    from fS fK g l show ?thesis by blast
  qed
  show ?thesis
    apply (intro exI conjI)
           apply (rule cS)
          apply (rule cK)
    using main ups scr makeRecursorRTimeHistogram_removeKey [of k stats]
    by (simp_all add: failures_def)
qed

theorem missing_key_fail_soft_witness:
  "exporter_ok (NewExporter ''key'' ''recursor'' ''http://localhost:8001/'')
   \<and> set (registryKeys (NewExporter ''key'' ''recursor'' ''http://localhost:8001/''))
        \<subseteq> Name ` set recursorSample
   \<and> (\<exists>eS outS eK outK.
         Exporter_Collect (NewExporter ''key'' ''recursor'' ''http://localhost:8001/'')
           (Inr recursorSample) = Inr (eS, outS)
       \<and> Exporter_Collect (NewExporter ''key'' ''recursor'' ''http://localhost:8001/'')
           (Inr (removeKey ''cache-misses'' recursorSample)) = Inr (eK, outK)
       \<and> counter_value (jsonParseFailures eS) = 0
       \<and> counter_value (jsonParseFailures eK) = 1
       \<and> labelValue eK 3 ''hit'' = labelValue eS 3 ''hit''
       \<and> map_of (gaugeMetrics eK) 1 = map_of (gaugeMetrics eS) 1)"
proof -
  let ?e = "NewExporter ''key'' ''recursor'' ''http://localhost:8001/''"
  have ok: "exporter_ok ?e" by (rule exporter_ok_NewExporter)
  have sub: "set (registryKeys ?e) \<subseteq> Name ` set recursorSample"
    by (rule recursorSample_complete)
  have refs: "references ?e ''cache-misses'' = 1"
    by (simp add: references_def recursor_registryKeys)
  have nl: "\<not> labelDerivedFrom ?e ''cache-misses'' 3 ''hit''"
    by (simp add: labelDerivedFrom_def NewExporter_def registry_defs)
  have ng: "\<not> gaugeDerivedFrom ?e ''cache-misses'' 1"
    by (simp add: gaugeDerivedFrom_def NewExporter_def registry_defs)
  have z: "counter_value (jsonParseFailures ?e) = 0"
    by (simp add: NewExporter_def Let_def split: prod.splits)
  from missing_key_fail_soft [OF ok sub, of "''cache-misses''"]
  obtain eS outS eK outK where
    "Exporter_Collect ?e (Inr recursorSample) = Inr (eS, outS)"
    "Exporter_Collect ?e (Inr (removeKey ''cache-misses'' recursorSample)) = Inr (eK, outK)"
    "counter_value (jsonParseFailures eS) = counter_value (jsonParseFailures ?e)"
    "counter_value (jsonParseFailures eK)
       = counter_value (jsonParseFailures eS) + real (references ?e ''cache-misses'')"
    "\<forall>i. \<not> gaugeDerivedFrom ?e ''cache-misses'' i
         \<longrightarrow> map_of (gaugeMetrics eK) i = map_of (gaugeMetrics eS) i"
    "\<forall>i l. \<not> labelDerivedFrom ?e ''cache-misses'' i l
         \<longrightarrow> labelValue eK i l = labelValue eS i l"
    by metis
  then have "Exporter_Collect ?e (Inr recursorSample) = Inr (eS, outS)
       \<and> Exporter_Collect ?e (Inr (removeKey ''cache-misses'' recursorSample)) = Inr (eK, outK)
       \<and> counter_value (jsonParseFailures eS) = 0
       \<and> counter_value (jsonParseFailures eK) = 1
       \<and> labelValue eK 3 ''hit'' = labelValue eS 3 ''hit''
       \<and> map_of (gaugeMetrics eK) 1 = map_of (gaugeMetrics eS) 1"
    using refs nl ng z by simp
  then show ?thesis using ok sub by blast
qed

section \<open>The order of the walk over the bucket map\<close>

lemma makeRecursorRTimeHistogram_order:
  "makeRecursorRTimeHistogram sm = rTimeHistogramIn rTimeBucketMap sm"
  by (simp add: makeRecursorRTimeHistogram_def rTimeHistogramIn_def)

lemma rTimeLoop_returns_iff:
  "(\<exists>r. rTimeLoop bm sm acc = Inr r) \<longleftrightarrow> (\<forall>k\<in>fst ` set bm. map_of sm k \<noteq> None)"
proof (induction bm sm acc rule: rTimeLoop.induct)
  case (1 statsMap acc)
  then show ?case by simp
next
  case (2 k v rest statsMap buckets count)
  show ?case
  proof (cases "map_of statsMap k")
    case None
    then show ?thesis by auto
  next
    case (Some val)
    with "2.IH" [OF Some] show ?thesis by simp
  qed
qed

lemma rTimeLoop_result:
  assumes "rTimeLoop bm sm (b, c) = Inr (b', c')" and "distinct (map snd bm)"
  shows "c' = c + sum_list (map (\<lambda>p. countOf sm (fst p)) bm)
       \<and> (distinct (map fst b) \<longrightarrow> distinct (map fst b'))
       \<and> (\<forall>x. map_of b' x =
             (if x \<noteq> 0 \<and> x \<in> snd ` set bm
              then Some (sum_list (map (\<lambda>p. if snd p = x then countOf sm (fst p) else 0) bm))
              else map_of b x))"
  using assms
proof (induction bm arbitrary: b c)
  case Nil
  then show ?case by simp
next
  case (Cons p rest)
  obtain k v where p: "p = (k, v)" by (cases p)
  from Cons.prems(1) p obtain val where val: "map_of sm k = Some val"
    by (auto split: option.splits)
  let ?b = "if v \<noteq> 0 then AList.update v (uint64 val) b else b"
  let ?c = "c + uint64 val"
  from Cons.prems(1) p val have rest: "rTimeLoop rest sm (?b, ?c) = Inr (b', c')"
    by simp
  have d: "distinct (map snd rest)" and nv: "v \<notin> snd ` set rest"
    using Cons.prems(2) p by auto
  note IH = Cons.IH [OF rest d]
  have z: "sum_list (map (\<lambda>q. if snd q = v then countOf sm (fst q) else 0) rest) = 0"
    using nv by (induction rest) auto
  have 1: "c' = c + sum_list (map (\<lambda>q. countOf sm (fst q)) (p # rest))"
    using IH val p by (simp add: countOf_def add.assoc)
  have 2: "distinct (map fst b) \<longrightarrow> distinct (map fst b')"
    using IH by (simp add: distinct_update)
  have 3: "map_of b' x =
             (if x \<noteq> 0 \<and> x \<in> snd ` set (p # rest)
              then Some (sum_list (map (\<lambda>q. if snd q = x then countOf sm (fst q) else 0) (p # rest)))
              else map_of b x)" for x
  proof (cases "x = v")
    case True
    from IH have "map_of b' x = (if x \<noteq> 0 \<and> x \<in> snd ` set rest
              then Some (sum_list (map (\<lambda>q. if snd q = x then countOf sm (fst q) else 0) rest))
              else map_of ?b x)" by blast
    with True nv val z p show ?thesis
      by (simp add: update_conv' countOf_def)
  next
    case False
    from IH have "map_of b' x = (if x \<noteq> 0 \<and> x \<in> snd ` set rest
              then Some (sum_list (map (\<lambda>q. if snd q = x then countOf sm (fst q) else 0) rest))
              else map_of ?b x)" by blast
    with False p show ?thesis
      by (simp add: update_conv')
  qed
  from 1 2 3 show ?case by blast
qed

lemma cumulate_cong:
  assumes "map_of b1 = map_of b2"
  shows "fst (cumulate ks (c, b1)) = fst (cumulate ks (c, b2))
       \<and> map_of (snd (cumulate ks (c, b1))) = map_of (snd (cumulate ks (c, b2)))"
  using assms
proof (induction ks arbitrary: c b1 b2)
  case Nil
  then show ?case by simp
next
  case (Cons k ks)
  have i: "index0 b1 k = index0 b2 k"
    using Cons.prems by (simp add: index0_def)
  have "map_of (AList.update k (c + index0 b2 k) b1) = map_of (AList.update k (c + index0 b2 k) b2)"
    using Cons.prems by (simp add: update_conv')
  from Cons.IH [OF this] i show ?case by (simp add: Let_def)
qed

lemma cumulate_keys:
  "fst ` set (snd (cumulate ks (c, b))) = fst ` set b \<union> set ks"
  by (induction ks arbitrary: c b) (auto simp: Let_def dom_update)

lemma cumulate_distinct:
  "distinct (map fst b) \<Longrightarrow> distinct (map fst (snd (cumulate ks (c, b))))"
  by (induction ks arbitrary: c b) (auto simp: Let_def distinct_update)

lemma sort_same_set:
  fixes xs ys :: "real list"
  assumes "distinct xs" and "distinct ys" and "set xs = set ys"
  shows "sort xs = sort ys"
  by (rule sorted_distinct_set_unique) (simp_all add: assms)

lemma keys_of_map:
  assumes "map_of b1 = map_of b2"
  shows "fst ` set b1 = fst ` set b2"
proof -
  have "dom (map_of b1) = dom (map_of b2)" using assms by simp
  then show ?thesis by (simp only: dom_map_of_conv_image_fst)
qed

text \<open>
  Two walks over the same entries, with bounds that differ from entry to entry: both
  fail, or both return histograms with the same bounds, bucket counts and total.
\<close>

lemma rTimeHistogramIn_any_order:
  assumes "set bm' = set bm" and "distinct (map snd bm)" and "distinct (map snd bm')"
  shows "(\<exists>err. rTimeHistogramIn bm sm = Inl err) = (\<exists>err. rTimeHistogramIn bm' sm = Inl err)"
    and "rTimeHistogramIn bm sm = Inr h \<Longrightarrow> rTimeHistogramIn bm' sm = Inr h' \<Longrightarrow>
           bucketBounds h' = bucketBounds h \<and> bucketCounts h' = bucketCounts h
           \<and> h_count h' = h_count h \<and> h_sum h' = h_sum h"
proof -
  have ret: "(\<exists>r. rTimeLoop bm sm ([], 0) = Inr r) = (\<exists>r. rTimeLoop bm' sm ([], 0) = Inr r)"
    by (simp only: rTimeLoop_returns_iff assms(1))
  have "(\<exists>err. rTimeHistogramIn bm sm = Inl err) = (\<not> (\<exists>r. rTimeLoop bm sm ([], 0) = Inr r))" for bm
    by (cases "rTimeLoop bm sm ([], 0)")
      (auto simp: rTimeHistogramIn_def Let_def split: prod.splits)
  with ret show "(\<exists>err. rTimeHistogramIn bm sm = Inl err) = (\<exists>err. rTimeHistogramIn bm' sm = Inl err)"
    by blast
next
  assume h: "rTimeHistogramIn bm sm = Inr h" and h': "rTimeHistogramIn bm' sm = Inr h'"
  from h obtain b c where l: "rTimeLoop bm sm ([], 0) = Inr (b, c)"
    by (auto simp: rTimeHistogramIn_def split: sum.splits)
  from h' obtain b' c' where l': "rTimeLoop bm' sm ([], 0) = Inr (b', c')"
    by (auto simp: rTimeHistogramIn_def split: sum.splits)
  have hb: "h_buckets h = snd (cumulate (sort (map fst b)) (0, b))" and hc: "h_count h = c"
    and hs: "h_sum h = 0"
    using h l by (auto simp: rTimeHistogramIn_def Let_def split: prod.splits)
  have hb': "h_buckets h' = snd (cumulate (sort (map fst b')) (0, b'))" and hc': "h_count h' = c'"
    and hs': "h_sum h' = 0"
    using h' l' by (auto simp: rTimeHistogramIn_def Let_def split: prod.splits)
  have dbm: "distinct bm" "distinct bm'"
    using assms(2,3) by (simp_all add: distinct_map)
  have sums: "sum_list (map f bm') = sum_list (map f bm)" for f :: "string \<times> real \<Rightarrow> uint64"
    using dbm assms(1) by (simp add: sum_list_distinct_conv_sum_set)
  note r = rTimeLoop_result [OF l assms(2)] and r' = rTimeLoop_result [OF l' assms(3)]
  have c: "c' = c" using r r' sums by simp
  have m: "map_of b' = map_of b"
  proof
    fix x
    show "map_of b' x = map_of b x" using r r' sums assms(1) by simp
  qed
  have d: "distinct (map fst b)" "distinct (map fst b')" using r r' by simp_all
  have "set (map fst b') = set (map fst b)" using keys_of_map [OF m] by simp
  then have keys: "sort (map fst b') = sort (map fst b)"
    using d by (intro sort_same_set)
  let ?ks = "sort (map fst b)"
  have mc: "map_of (h_buckets h') = map_of (h_buckets h)"
    unfolding hb hb' keys using cumulate_cong [OF m, of ?ks 0] by simp
  have "distinct (map fst (h_buckets h))" "distinct (map fst (h_buckets h'))"
    unfolding hb hb' using d by (simp_all add: cumulate_distinct)
  moreover have "set (map fst (h_buckets h')) = set (map fst (h_buckets h))"
    using keys_of_map [OF mc] by simp
  ultimately have bounds: "bucketBounds h' = bucketBounds h"
    unfolding bucketBounds_def by (intro sort_same_set)
  have "bucketCounts h' = bucketCounts h"
    unfolding bucketCounts_def bounds by (simp add: index0_def mc)
  with bounds c hc hc' hs hs'
  show "bucketBounds h' = bucketBounds h \<and> bucketCounts h' = bucketCounts h
           \<and> h_count h' = h_count h \<and> h_sum h' = h_sum h"
    by simp
qed

lemma makeRecursorRTimeHistogram_any_order:
  assumes "set bm = set rTimeBucketMap" and "distinct bm"
  shows "(\<exists>err. rTimeHistogramIn bm sm = Inl err)
           = (\<exists>err. makeRecursorRTimeHistogram sm = Inl err)"
    and "rTimeHistogramIn bm sm = Inr h' \<Longrightarrow> makeRecursorRTimeHistogram sm = Inr h \<Longrightarrow>
           bucketBounds h' = bucketBounds h \<and> bucketCounts h' = bucketCounts h
           \<and> h_count h' = h_count h \<and> h_sum h' = h_sum h"
proof -
  have d: "distinct (map snd rTimeBucketMap)"
    by (simp add: rTimeBucketMap_def)
  then have "inj_on snd (set bm)"
    by (simp add: distinct_map assms(1))
  then have d': "distinct (map snd bm)"
    using assms(2) by (simp add: distinct_map)
  note any = rTimeHistogramIn_any_order [OF assms(1) d d', of sm]
  show "(\<exists>err. rTimeHistogramIn bm sm = Inl err)
           = (\<exists>err. makeRecursorRTimeHistogram sm = Inl err)"
    using any(1) [symmetric] by (simp only: makeRecursorRTimeHistogram_order)
  show "rTimeHistogramIn bm sm = Inr h' \<Longrightarrow> makeRecursorRTimeHistogram sm = Inr h \<Longrightarrow>
           bucketBounds h' = bucketBounds h \<and> bucketCounts h' = bucketCounts h
           \<and> h_count h' = h_count h \<and> h_sum h' = h_sum h"
    using any(2) [of h h'] by (simp only: makeRecursorRTimeHistogram_order)
qed

end
